theory Spec2Isabelle
  imports Complex_Main "HOL-Library.Word"
begin

section \<open>Arrays\<close>

text \<open>
  The conversion code works on two-dimensional numpy arrays. An array is modelled by its
  rows (outermost axis first) together with its number of columns, which numpy keeps
  even when there is no row. numpy arrays are rectangular: \<open>wf_ndarray\<close> says so.
\<close>

type_synonym uint8 = "8 word"

record 'a ndarray =
  ncols :: nat
  rows :: "'a list list"

definition nrows :: "'a ndarray \<Rightarrow> nat" where
  "nrows m = length (rows m)"

definition shape :: "'a ndarray \<Rightarrow> nat \<times> nat" where
  "shape m = (nrows m, ncols m)"

definition wf_ndarray :: "'a ndarray \<Rightarrow> bool" where
  "wf_ndarray m \<longleftrightarrow> list_all (\<lambda>r. length r = ncols m) (rows m)"

text \<open>\<open>m[i, j]\<close> for indices in range.\<close>

definition elem :: "'a ndarray \<Rightarrow> nat \<Rightarrow> nat \<Rightarrow> 'a" where
  "elem m i j = rows m ! i ! j"

text \<open>\<open>m.ravel(order='F')\<close>: the elements column by column, each column top to bottom.\<close>

definition ravel_F :: "'a ndarray \<Rightarrow> 'a list" where
  "ravel_F m = concat (map (\<lambda>j. map (\<lambda>r. r ! j) (rows m)) [0..<ncols m])"

text \<open>A binary mask holds only the values 0 and 1.\<close>

definition is_binary :: "uint8 ndarray \<Rightarrow> bool" where
  "is_binary m \<longleftrightarrow> list_all (list_all (\<lambda>v. v = 0 \<or> v = 1)) (rows m)"

section \<open>Run-length encoding\<close>

text \<open>
  \<open>itertools.groupby\<close> without a key function: one pair per maximal run of equal
  consecutive elements, made of the run's value and of its elements.
\<close>

function groupby :: "'a list \<Rightarrow> ('a \<times> 'a list) list" where
  "groupby [] = []"
| "groupby (x # xs) =
     (x, x # takeWhile (\<lambda>y. y = x) xs) # groupby (dropWhile (\<lambda>y. y = x) xs)"
  by pat_completeness auto
termination
  by (relation "measure length") (auto simp: length_dropWhile_le le_imp_less_Suc)

record rle =
  counts :: "nat list"
  size_hw :: "nat list"

text \<open>
  The loop of \<open>binary_mask_to_rle\<close> over \<open>enumerate(groupby(...))\<close>: \<open>i\<close> is the
  index of the group, \<open>cs\<close> the list \<open>counts\<close> appended to so far.
\<close>

fun rle_loop :: "nat \<Rightarrow> (uint8 \<times> uint8 list) list \<Rightarrow> nat list \<Rightarrow> nat list" where
  "rle_loop i [] cs = cs"
| "rle_loop i ((v, elements) # gs) cs =
     rle_loop (i + 1) gs
       ((if i = 0 \<and> v = 1 then cs @ [0] else cs) @ [length elements])"

definition binary_mask_to_rle :: "uint8 ndarray \<Rightarrow> rle" where
  "binary_mask_to_rle binary_mask =
     \<lparr>counts = rle_loop 0 (groupby (ravel_F binary_mask)) [],
      size_hw = [nrows binary_mask, ncols binary_mask]\<rparr>"

text \<open>
  The decoder is not part of the conversion code; it is the reading of an encoding that
  the specification fixes: the counts are replayed as runs of background (0) and
  foreground (1) in turn, starting with background, and the resulting sequence fills a
  grid of the recorded size column by column. An encoding whose size is not a pair, or
  whose counts do not add up to the number of cells, has no decoding.
\<close>

fun replay :: "uint8 \<Rightarrow> nat list \<Rightarrow> uint8 list" where
  "replay b [] = []"
| "replay b (c # cs) = replicate c b @ replay (1 - b) cs"

definition unravel_F :: "nat \<Rightarrow> nat \<Rightarrow> 'a list \<Rightarrow> 'a ndarray" where
  "unravel_F h w flat =
     \<lparr>ncols = w, rows = map (\<lambda>i. map (\<lambda>j. flat ! (j * h + i)) [0..<w]) [0..<h]\<rparr>"

definition rle_decode :: "rle \<Rightarrow> uint8 ndarray option" where
  "rle_decode r =
     (case size_hw r of
        [h, w] \<Rightarrow>
          if sum_list (counts r) = h * w then Some (unravel_F h w (replay 0 (counts r)))
          else None
      | _ \<Rightarrow> None)"


text \<open>
  What the specification calls the maximal runs of a sequence: a splitting of the
  sequence into non-empty blocks of one value each, neighbouring blocks having different
  values.
\<close>

definition maximal_runs :: "'a list list \<Rightarrow> 'a list \<Rightarrow> bool" where
  "maximal_runs rs xs \<longleftrightarrow>
     concat rs = xs \<and>
     list_all (\<lambda>r. r \<noteq> [] \<and> list_all (\<lambda>x. x = hd r) r) rs \<and>
     distinct_adj (map hd rs)"

text \<open>The mask patterns that the specification names for the round trip.\<close>

definition full :: "nat \<Rightarrow> nat \<Rightarrow> 'a \<Rightarrow> 'a ndarray" where
  "full h w v = \<lparr>ncols = w, rows = replicate h (replicate w v)\<rparr>"

definition single_pixel :: "nat \<Rightarrow> nat \<Rightarrow> nat \<Rightarrow> nat \<Rightarrow> uint8 ndarray" where
  "single_pixel h w i0 j0 =
     \<lparr>ncols = w,
      rows = map (\<lambda>i. map (\<lambda>j. if i = i0 \<and> j = j0 then 1 else 0) [0..<w]) [0..<h]\<rparr>"

definition checkerboard :: "nat \<Rightarrow> nat \<Rightarrow> uint8 ndarray" where
  "checkerboard h w =
     \<lparr>ncols = w, rows = map (\<lambda>i. map (\<lambda>j. if even (i + j) then 0 else 1) [0..<w]) [0..<h]\<rparr>"

section \<open>Floating point\<close>

text \<open>
  Python's \<open>float\<close> is the IEEE 754 binary64 format: a finite value, an infinity or
  NaN. A finite float is modelled by the real number it stands for, so the two zeros are
  one value; no operation of the conversion code tells them apart. An arithmetic
  operation on finite floats is the exact operation followed by rounding to the nearest
  representable number, ties to the even significand (\<open>round64\<close>: 53 significant
  bits, gradual underflow below \<open>2 ^ -1022\<close>), and by overflow to an infinity when the
  rounded magnitude reaches \<open>2 ^ 1024\<close>. Python's \<open>*\<close>, \<open>+\<close> and \<open>-\<close> on floats
  raise no exception.
\<close>

datatype pyfloat = Finite real | PosInf | NegInf | NaN

definition round_half_even :: "real \<Rightarrow> int" where
  "round_half_even x =
     (let f = \<lfloor>x\<rfloor>; d = x - of_int f
      in if d < 1 / 2 then f else if 1 / 2 < d then f + 1 else if even f then f else f + 1)"

definition round64 :: "real \<Rightarrow> real" where
  "round64 x =
     (if x = 0 then 0
      else let e = max \<lfloor>log 2 \<bar>x\<bar>\<rfloor> (- 1022); u = 2 powr of_int (e - 52)
           in of_int (round_half_even (x / u)) * u)"

definition fl64 :: "real \<Rightarrow> pyfloat" where
  "fl64 x =
     (let r = round64 x
      in if 2 ^ 1024 \<le> \<bar>r\<bar> then (if 0 < r then PosInf else NegInf) else Finite r)"

fun fneg :: "pyfloat \<Rightarrow> pyfloat" where
  "fneg (Finite a) = Finite (- a)"
| "fneg PosInf = NegInf"
| "fneg NegInf = PosInf"
| "fneg NaN = NaN"

fun fadd :: "pyfloat \<Rightarrow> pyfloat \<Rightarrow> pyfloat" where
  "fadd (Finite a) (Finite b) = fl64 (a + b)"
| "fadd NaN y = NaN"
| "fadd x NaN = NaN"
| "fadd PosInf NegInf = NaN"
| "fadd NegInf PosInf = NaN"
| "fadd PosInf y = PosInf"
| "fadd NegInf y = NegInf"
| "fadd x PosInf = PosInf"
| "fadd x NegInf = NegInf"

definition fsub :: "pyfloat \<Rightarrow> pyfloat \<Rightarrow> pyfloat" where
  "fsub x y = fadd x (fneg y)"

fun fmul :: "pyfloat \<Rightarrow> pyfloat \<Rightarrow> pyfloat" where
  "fmul (Finite a) (Finite b) = fl64 (a * b)"
| "fmul NaN y = NaN"
| "fmul x NaN = NaN"
| "fmul (Finite a) y =
     (if a = 0 then NaN else if (0 < a) = (y = PosInf) then PosInf else NegInf)"
| "fmul x (Finite b) =
     (if b = 0 then NaN else if (0 < b) = (x = PosInf) then PosInf else NegInf)"
| "fmul x y = (if x = y then PosInf else NegInf)"

text \<open>
  \<open>round(x, n)\<close> on a float, for the small positive \<open>n\<close> used here: the decimal
  number with \<open>n\<close> digits after the point nearest to the exact value of \<open>x\<close> (ties to
  the even digit), converted back to the nearest float. An infinity and NaN round to
  themselves.
\<close>

fun py_round :: "pyfloat \<Rightarrow> nat \<Rightarrow> pyfloat" where
  "py_round (Finite x) n = fl64 (of_int (round_half_even (x * 10 ^ n)) / 10 ^ n)"
| "py_round x n = x"

datatype error = KeyError string | OverflowError | ValueError

text \<open>
  \<open>math.floor\<close> and \<open>math.ceil\<close> return a Python integer; they raise
  \<open>OverflowError\<close> on an infinity and \<open>ValueError\<close> on NaN.
\<close>

fun floor_py :: "pyfloat \<Rightarrow> error + int" where
  "floor_py (Finite x) = Inr \<lfloor>x\<rfloor>"
| "floor_py NaN = Inl ValueError"
| "floor_py x = Inl OverflowError"

fun ceil_py :: "pyfloat \<Rightarrow> error + int" where
  "ceil_py (Finite x) = Inr \<lceil>x\<rceil>"
| "ceil_py NaN = Inl ValueError"
| "ceil_py x = Inl OverflowError"

section \<open>Cropping and thresholding\<close>

text \<open>
  A slice bound as Python resolves it against a length \<open>n\<close> (step 1): a negative bound
  counts from the end, and the result is cut to \<open>0..n\<close>.
\<close>

definition slice_bound :: "nat \<Rightarrow> int \<Rightarrow> nat" where
  "slice_bound n b = (if b < 0 then nat (max 0 (b + int n)) else min (nat b) n)"

definition slice_len :: "nat \<Rightarrow> int \<Rightarrow> int \<Rightarrow> nat" where
  "slice_len n start stop = slice_bound n stop - slice_bound n start"

definition py_slice :: "int \<Rightarrow> int \<Rightarrow> 'a list \<Rightarrow> 'a list" where
  "py_slice start stop xs =
     take (slice_len (length xs) start stop) (drop (slice_bound (length xs) start) xs)"

text \<open>\<open>a[r0:r1, c0:c1]\<close> on a two-dimensional array.\<close>

definition slice2 :: "int \<Rightarrow> int \<Rightarrow> int \<Rightarrow> int \<Rightarrow> 'a ndarray \<Rightarrow> 'a ndarray" where
  "slice2 r0 r1 c0 c1 a =
     \<lparr>ncols = slice_len (ncols a) c0 c1,
      rows = map (py_slice c0 c1) (py_slice r0 r1 (rows a))\<rparr>"

text \<open>
  The four bounds are computed in the order of the source, so the first failing
  \<open>floor\<close> or \<open>ceil\<close> decides the exception. \<open>np.asfortranarray\<close> changes the
  memory layout only, so it is the identity on the model of an array.
\<close>

definition extract_area_inside_bbox :: "pyfloat list \<Rightarrow> 'a ndarray \<Rightarrow> error + 'a ndarray" where
  "extract_area_inside_bbox bbox segmentation_mask =
     (case floor_py (bbox ! 0) of Inl e \<Rightarrow> Inl e | Inr xmin \<Rightarrow>
      case floor_py (bbox ! 1) of Inl e \<Rightarrow> Inl e | Inr ymin \<Rightarrow>
      case ceil_py (fadd (bbox ! 0) (bbox ! 2)) of Inl e \<Rightarrow> Inl e | Inr xmax \<Rightarrow>
      case ceil_py (fadd (bbox ! 1) (bbox ! 3)) of Inl e \<Rightarrow> Inl e | Inr ymax \<Rightarrow>
      Inr (slice2 ymin ymax xmin xmax segmentation_mask))"

text \<open>
  \<open>seg_mask == category_code\<close> compares element by element; \<open>astype('uint8')\<close> turns
  the truth values into 1 and 0; \<open>np.count_nonzero\<close> counts the true ones.
\<close>

definition count_nonzero :: "bool ndarray \<Rightarrow> nat" where
  "count_nonzero a = sum_list (map (\<lambda>r. length (filter (\<lambda>b. b) r)) (rows a))"

definition eq_scalar :: "int ndarray \<Rightarrow> int \<Rightarrow> bool ndarray" where
  "eq_scalar a c = \<lparr>ncols = ncols a, rows = map (map (\<lambda>p. p = c)) (rows a)\<rparr>"

definition astype_uint8 :: "bool ndarray \<Rightarrow> uint8 ndarray" where
  "astype_uint8 a = \<lparr>ncols = ncols a, rows = map (map (\<lambda>b. if b then 1 else 0)) (rows a)\<rparr>"

definition generate_binary_mask :: "int ndarray \<Rightarrow> int \<Rightarrow> uint8 ndarray \<times> nat" where
  "generate_binary_mask seg_mask category_code =
     (let bin_mask = eq_scalar seg_mask category_code
      in (astype_uint8 bin_mask, count_nonzero bin_mask))"

section \<open>The annotation generator\<close>

text \<open>
  The inputs of \<open>generate_annotations\<close>. A file of the XML directory is given by its
  name together with what the code reads for it: the segmentation image of the same base
  name as a two-dimensional array, the width and height of the \<open>size\<close> element, and
  the \<open>object\<close> elements in document order, each with its name and the four numbers
  of its \<open>bndbox\<close>. The list of files is what \<open>listdir\<close> returns, in that order.
  Reading and parsing are not modelled: the texts are taken as already converted by
  \<open>float\<close> (to any float, finite or not), and the values of \<open>class_colors\<close> as
  already converted by \<open>int\<close>. A missing key of one of the three lookup tables raises
  \<open>KeyError\<close>. Any exception ends the run without a result. The progress messages
  are left out.
\<close>

record annotation =
  segmentation :: rle
  area :: nat
  iscrowd :: int
  image_id :: int
  bbox :: "pyfloat list"
  category_id :: int
  ann_id :: int

record xml_object =
  obj_name :: string
  obj_xmin :: pyfloat
  obj_ymin :: pyfloat
  obj_xmax :: pyfloat
  obj_ymax :: pyfloat

record xml_file =
  file_name :: string
  seg_array :: "int ndarray"
  size_width :: pyfloat
  size_height :: pyfloat
  objects :: "xml_object list"

record gen_args =
  category_lookup :: "string \<rightharpoonup> int"
  img_lookup :: "string \<rightharpoonup> int"
  class_colors :: "string \<rightharpoonup> int"
  train_set :: "string set"

text \<open>The three variables that the iteration updates.\<close>

record gen_state =
  train_annotation_list :: "annotation list"
  test_annotation_list :: "annotation list"
  counter :: int

text \<open>\<open>file_name.split('.')[0]\<close>: the part before the first dot.\<close>

definition img_name_of :: "string \<Rightarrow> string" where
  "img_name_of fname = takeWhile (\<lambda>c. c \<noteq> CHR ''.'') fname"

text \<open>The bounding box of an object, lines 131 to 136 of the source.\<close>

definition object_bbox :: "pyfloat \<Rightarrow> pyfloat \<Rightarrow> xml_object \<Rightarrow> pyfloat list" where
  "object_bbox w h obj =
     (let xmin = fmul (obj_xmin obj) w;
          ymin = fmul (obj_ymin obj) h;
          width = fsub (fmul (obj_xmax obj) w) xmin;
          height = fsub (fmul (obj_ymax obj) h) ymin
      in [xmin, ymin, py_round width 8, py_round height 8])"

text \<open>
  The body of the loop over the objects of one file, lines 127 to 171: the statements
  that can raise come in the order of the source.
\<close>

definition object_step ::
  "gen_args \<Rightarrow> string \<Rightarrow> int ndarray \<Rightarrow> pyfloat \<Rightarrow> pyfloat \<Rightarrow> gen_state \<Rightarrow> xml_object
     \<Rightarrow> error + gen_state" where
  "object_step args img_name seg w h st obj =
     (let name = obj_name obj in
      if name \<noteq> ''brace'' then
        let bb = object_bbox w h obj in
        case category_lookup args name of
          None \<Rightarrow> Inl (KeyError name)
        | Some cat_id \<Rightarrow>
            case extract_area_inside_bbox bb seg of
              Inl e \<Rightarrow> Inl e
            | Inr extracted_seg \<Rightarrow>
                case class_colors args name of
                  None \<Rightarrow> Inl (KeyError name)
                | Some class_color \<Rightarrow>
                    let (bin_mask, ar) = generate_binary_mask extracted_seg class_color;
                        rle_segmentation = binary_mask_to_rle bin_mask
                    in case img_lookup args img_name of
                         None \<Rightarrow> Inl (KeyError img_name)
                       | Some img_id \<Rightarrow>
                           let r = \<lparr>segmentation = rle_segmentation, area = ar, iscrowd = 0,
                                    image_id = img_id, bbox = bb, category_id = cat_id,
                                    ann_id = counter st\<rparr>
                           in Inr ((if img_name \<in> train_set args
                                    then st\<lparr>train_annotation_list :=
                                              train_annotation_list st @ [r]\<rparr>
                                    else st\<lparr>test_annotation_list :=
                                              test_annotation_list st @ [r]\<rparr>)
                                   \<lparr>counter := counter st + 1\<rparr>)
      else Inr st)"

fun objects_loop ::
  "gen_args \<Rightarrow> string \<Rightarrow> int ndarray \<Rightarrow> pyfloat \<Rightarrow> pyfloat \<Rightarrow> gen_state \<Rightarrow> xml_object list
     \<Rightarrow> error + gen_state" where
  "objects_loop args img_name seg w h st [] = Inr st"
| "objects_loop args img_name seg w h st (obj # objs) =
     (case object_step args img_name seg w h st obj of
        Inl e \<Rightarrow> Inl e
      | Inr st' \<Rightarrow> objects_loop args img_name seg w h st' objs)"

definition file_step :: "gen_args \<Rightarrow> gen_state \<Rightarrow> xml_file \<Rightarrow> error + gen_state" where
  "file_step args st f =
     objects_loop args (img_name_of (file_name f)) (seg_array f)
       (size_width f) (size_height f) st (objects f)"

fun files_loop :: "gen_args \<Rightarrow> gen_state \<Rightarrow> xml_file list \<Rightarrow> error + gen_state" where
  "files_loop args st [] = Inr st"
| "files_loop args st (f # fs) =
     (case file_step args st f of
        Inl e \<Rightarrow> Inl e
      | Inr st' \<Rightarrow> files_loop args st' fs)"

definition generate_annotations ::
  "gen_args \<Rightarrow> xml_file list \<Rightarrow> error + (annotation list \<times> annotation list)" where
  "generate_annotations args file_list =
     (case files_loop args
             \<lparr>train_annotation_list = [], test_annotation_list = [], counter = 1\<rparr> file_list of
        Inl e \<Rightarrow> Inl e
      | Inr st \<Rightarrow> Inr (train_annotation_list st, test_annotation_list st))"

section \<open>Notions of the specification\<close>

text \<open>
  The crop \<open>[r0:r1, c0:c1]\<close> of the specification: rows \<open>r0\<close> to \<open>r1 - 1\<close> and
  columns \<open>c0\<close> to \<open>c1 - 1\<close> of an array, for bounds within the array.
\<close>

definition window :: "nat \<Rightarrow> nat \<Rightarrow> nat \<Rightarrow> nat \<Rightarrow> 'a ndarray \<Rightarrow> 'a ndarray" where
  "window r0 r1 c0 c1 a =
     \<lparr>ncols = c1 - c0, rows = map (\<lambda>i. map (\<lambda>j. elem a i j) [c0..<c1]) [r0..<r1]\<rparr>"



text \<open>The number of pixels of a mask that are 1.\<close>

definition count_true :: "uint8 ndarray \<Rightarrow> nat" where
  "count_true a = sum_list (map (\<lambda>r. count_list r 1) (rows a))"

text \<open>
  The number of foreground pixels that an encoding stands for: the sum of the counts at
  the odd positions.
\<close>

fun foreground :: "nat list \<Rightarrow> nat" where
  "foreground [] = 0"
| "foreground [b] = 0"
| "foreground (b # f # cs) = f + foreground cs"

text \<open>
  The objects that give rise to a record, in the order in which the iteration meets them:
  file by file, and within a file in document order, the objects named \<open>brace\<close> left
  out.
\<close>

definition qualifying :: "xml_file list \<Rightarrow> (xml_file \<times> xml_object) list" where
  "qualifying file_list =
     concat (map (\<lambda>f. map (Pair f) (filter (\<lambda>obj. obj_name obj \<noteq> ''brace'') (objects f)))
       file_list)"

text \<open>
  What the body of the loop needs in order not to raise on an object: the three keys are
  present and the four bounds of the crop are integers. Then \<open>record_of\<close> is the
  record it builds when the counter has the value \<open>c\<close>, and \<open>generated\<close> lists the
  records of a sequence of objects numbered from \<open>c\<close> on, each tagged with whether it
  goes to the training list. These serve to state what a run returns.
\<close>

definition object_ok :: "gen_args \<Rightarrow> xml_file \<times> xml_object \<Rightarrow> bool" where
  "object_ok args q \<longleftrightarrow>
     category_lookup args (obj_name (snd q)) \<noteq> None \<and>
     class_colors args (obj_name (snd q)) \<noteq> None \<and>
     img_lookup args (img_name_of (file_name (fst q))) \<noteq> None \<and>
     \<not> isl (extract_area_inside_bbox
              (object_bbox (size_width (fst q)) (size_height (fst q)) (snd q))
              (seg_array (fst q)))"

definition record_of :: "gen_args \<Rightarrow> xml_file \<Rightarrow> int \<Rightarrow> xml_object \<Rightarrow> annotation" where
  "record_of args f c obj =
     (let bb = object_bbox (size_width f) (size_height f) obj;
          m = generate_binary_mask (projr (extract_area_inside_bbox bb (seg_array f)))
                (the (class_colors args (obj_name obj)))
      in \<lparr>segmentation = binary_mask_to_rle (fst m), area = snd m, iscrowd = 0,
           image_id = the (img_lookup args (img_name_of (file_name f))), bbox = bb,
           category_id = the (category_lookup args (obj_name obj)), ann_id = c\<rparr>)"

fun generated ::
  "gen_args \<Rightarrow> int \<Rightarrow> (xml_file \<times> xml_object) list \<Rightarrow> (bool \<times> annotation) list" where
  "generated args c [] = []"
| "generated args c ((f, obj) # qs) =
     (img_name_of (file_name f) \<in> train_set args, record_of args f c obj)
       # generated args (c + 1) qs"

text \<open>The state of the iteration after a sequence of tagged records has been appended.\<close>

definition extend_state :: "(bool \<times> annotation) list \<Rightarrow> gen_state \<Rightarrow> gen_state" where
  "extend_state g st =
     \<lparr>train_annotation_list = train_annotation_list st @ map snd (filter fst g),
      test_annotation_list = test_annotation_list st @ map snd (filter (\<lambda>p. \<not> fst p) g),
      counter = counter st + int (length g)\<rparr>"

text \<open>
  A small run, after example 4 of the specification: two images of 2 by 2 pixels, the
  first in the training set, each with one object that is not a brace; the first file
  also holds a brace.
\<close>

definition example_args :: gen_args where
  "example_args =
     \<lparr>category_lookup = [''notehead'' \<mapsto> 3, ''brace'' \<mapsto> 9],
      img_lookup = [''a'' \<mapsto> 10, ''b'' \<mapsto> 20],
      class_colors = [''notehead'' \<mapsto> 5, ''brace'' \<mapsto> 7],
      train_set = {''a''}\<rparr>"

definition example_files :: "xml_file list" where
  "example_files =
     [\<lparr>file_name = ''a.xml'', seg_array = \<lparr>ncols = 2, rows = [[5, 0], [5, 5]]\<rparr>,
       size_width = Finite 2, size_height = Finite 2,
       objects =
         [\<lparr>obj_name = ''brace'', obj_xmin = Finite 0, obj_ymin = Finite 0,
            obj_xmax = Finite 1, obj_ymax = Finite 1\<rparr>,
          \<lparr>obj_name = ''notehead'', obj_xmin = Finite 0, obj_ymin = Finite 0,
            obj_xmax = Finite 1, obj_ymax = Finite 1\<rparr>]\<rparr>,
      \<lparr>file_name = ''b.xml'', seg_array = \<lparr>ncols = 2, rows = [[0, 5], [0, 0]]\<rparr>,
       size_width = Finite 2, size_height = Finite 2,
       objects =
         [\<lparr>obj_name = ''notehead'', obj_xmin = Finite (1 / 2), obj_ymin = Finite 0,
            obj_xmax = Finite 1, obj_ymax = Finite (1 / 2)\<rparr>]\<rparr>]"

definition example_train :: "annotation list" where
  "example_train =
     [\<lparr>segmentation = \<lparr>counts = [0, 2, 1, 1], size_hw = [2, 2]\<rparr>, area = 3, iscrowd = 0,
       image_id = 10, bbox = [Finite 0, Finite 0, Finite 2, Finite 2], category_id = 3,
       ann_id = 1\<rparr>]"

definition example_test :: "annotation list" where
  "example_test =
     [\<lparr>segmentation = \<lparr>counts = [0, 1], size_hw = [1, 1]\<rparr>, area = 1, iscrowd = 0,
       image_id = 20, bbox = [Finite 1, Finite 0, Finite 1, Finite 1], category_id = 3,
       ann_id = 2\<rparr>]"

section \<open>Properties of the run-length encoder\<close>

lemma rle_loop_eq:
  "rle_loop i gs cs =
     cs @ (if i = 0 \<and> gs \<noteq> [] \<and> fst (hd gs) = 1 then [0] else []) @ map (\<lambda>g. length (snd g)) gs"
  by (induction i gs cs rule: rle_loop.induct) auto

lemma concat_groupby: "concat (map snd (groupby xs)) = xs"
  by (induction xs rule: groupby.induct) auto

lemma takeWhile_eq_replicate:
  "takeWhile (\<lambda>y. y = x) xs = replicate (length (takeWhile (\<lambda>y. y = x) xs)) x"
proof -
  have "\<forall>y\<in>set (takeWhile (\<lambda>y. y = x) xs). y = x"
    by (auto dest: set_takeWhileD)
  then show ?thesis by (simp add: replicate_length_same)
qed

lemma groupby_run:
  "(v, es) \<in> set (groupby xs) \<Longrightarrow> es \<noteq> [] \<and> es = replicate (length es) v"
proof (induction xs rule: groupby.induct)
  case 1
  then show ?case by simp
next
  case (2 x xs)
  let ?t = "takeWhile (\<lambda>y. y = x) xs"
  from "2.prems" have "(v = x \<and> es = x # ?t) \<or> (v, es) \<in> set (groupby (dropWhile (\<lambda>y. y = x) xs))"
    by simp
  then show ?case
  proof
    assume a: "v = x \<and> es = x # ?t"
    have "x # ?t = replicate (Suc (length ?t)) x"
      using takeWhile_eq_replicate[of x xs] by simp
    with a show ?thesis by simp
  next
    assume "(v, es) \<in> set (groupby (dropWhile (\<lambda>y. y = x) xs))"
    then show ?thesis by (rule "2.IH")
  qed
qed

lemma groupby_Nil_iff [simp]: "groupby xs = [] \<longleftrightarrow> xs = []"
  by (cases xs) auto

lemma hd_groupby: "xs \<noteq> [] \<Longrightarrow> fst (hd (groupby xs)) = hd xs"
  by (cases xs) auto

lemma groupby_distinct_adj: "distinct_adj (map fst (groupby xs))"
proof (induction xs rule: groupby.induct)
  case 1
  then show ?case by simp
next
  case (2 x xs)
  let ?d = "dropWhile (\<lambda>y. y = x) xs"
  show ?case
  proof (cases "?d = []")
    case True
    then show ?thesis by (simp del: dropWhile_eq_Nil_conv)
  next
    case False
    then have "hd ?d \<noteq> x" using hd_dropWhile[of "\<lambda>y. y = x" xs] by simp
    moreover have "fst (hd (groupby ?d)) = hd ?d" using False by (rule hd_groupby)
    ultimately show ?thesis using 2 False
      by (cases "groupby ?d") (auto simp: distinct_adj_Cons)
  qed
qed

lemma sum_groupby: "sum_list (map (\<lambda>g. length (snd g)) (groupby xs)) = length xs"
proof -
  have "length (concat (map snd (groupby xs))) = length xs" by (simp add: concat_groupby)
  then show ?thesis by (simp add: length_concat comp_def)
qed

lemma replay_groupby:
  "list_all (\<lambda>v. v = 0 \<or> v = 1) xs \<Longrightarrow> xs = [] \<or> hd xs = b \<Longrightarrow>
   replay b (map (\<lambda>g. length (snd g)) (groupby xs)) = xs"
proof (induction xs arbitrary: b rule: groupby.induct)
  case 1
  then show ?case by simp
next
  case (2 x xs)
  let ?t = "takeWhile (\<lambda>y. y = x) xs"
  let ?d = "dropWhile (\<lambda>y. y = x) xs"
  from 2 have b: "b = x" by simp
  have rep: "replicate (length ?t) x = ?t"
    using takeWhile_eq_replicate[of x xs] by simp
  have bin: "list_all (\<lambda>v. v = 0 \<or> v = 1) ?d"
    using 2(2) by (auto simp: list_all_iff dest: set_dropWhileD)
  have "?d = [] \<or> hd ?d = 1 - x"
  proof (cases "?d = []")
    case True
    then show ?thesis by simp
  next
    case False
    then have "hd ?d \<noteq> x" using hd_dropWhile[of "\<lambda>y. y = x" xs] by simp
    moreover have "hd ?d = 0 \<or> hd ?d = 1"
      using bin False by (cases ?d) auto
    moreover have "x = 0 \<or> x = 1" using 2(2) by simp
    ultimately show ?thesis by auto
  qed
  from 2(1)[OF bin this] have "replay (1 - x) (map (\<lambda>g. length (snd g)) (groupby ?d)) = ?d" .
  then show ?case using b rep by simp
qed

lemma length_ravel_F: "length (ravel_F m) = nrows m * ncols m"
  by (simp add: ravel_F_def nrows_def length_concat comp_def sum_list_triv)

lemma sum_list_upt_const:
  "(\<And>k. k < n \<Longrightarrow> g k = (h::nat)) \<Longrightarrow> sum_list (map g [0..<n]) = n * h"
  by (induction n) auto

lemma nth_concat_equal:
  "(\<And>k. k < n \<Longrightarrow> length (f k) = h) \<Longrightarrow> j < n \<Longrightarrow> i < h \<Longrightarrow>
   concat (map f [0..<n]) ! (j * h + i) = f j ! i"
proof (induction n)
  case 0
  then show ?case by simp
next
  case (Suc n)
  have len: "length (concat (map f [0..<n])) = n * h"
    using Suc.prems(1) by (simp add: length_concat comp_def sum_list_upt_const)
  show ?case
  proof (cases "j < n")
    case True
    then have "Suc j * h \<le> n * h"
      by (intro mult_le_mono1) simp
    then have "j * h + i < n * h"
      using Suc.prems(3) by simp
    with Suc True len show ?thesis by (simp add: nth_append)
  next
    case False
    with Suc.prems have "j = n" by simp
    with len show ?thesis by (simp add: nth_append)
  qed
qed

lemma ravel_F_nth:
  "wf_ndarray m \<Longrightarrow> i < nrows m \<Longrightarrow> j < ncols m \<Longrightarrow>
   ravel_F m ! (j * nrows m + i) = rows m ! i ! j"
  unfolding ravel_F_def
  by (subst nth_concat_equal) (auto simp: nrows_def)

lemma unravel_ravel: "wf_ndarray m \<Longrightarrow> unravel_F (nrows m) (ncols m) (ravel_F m) = m"
proof -
  assume wf: "wf_ndarray m"
  have "map (\<lambda>i. map (\<lambda>j. ravel_F m ! (j * nrows m + i)) [0..<ncols m]) [0..<nrows m] = rows m"
  proof (rule nth_equalityI)
    show "length (map (\<lambda>i. map (\<lambda>j. ravel_F m ! (j * nrows m + i)) [0..<ncols m]) [0..<nrows m]) = length (rows m)"
      by (simp add: nrows_def)
  next
    fix i assume "i < length (map (\<lambda>i. map (\<lambda>j. ravel_F m ! (j * nrows m + i)) [0..<ncols m]) [0..<nrows m])"
    then have i: "i < nrows m" by simp
    then have len: "length (rows m ! i) = ncols m"
      using wf by (simp add: wf_ndarray_def list_all_length nrows_def)
    have "map (\<lambda>j. ravel_F m ! (j * nrows m + i)) [0..<ncols m] = map (\<lambda>j. rows m ! i ! j) [0..<ncols m]"
      using wf i by (simp add: ravel_F_nth)
    also have "\<dots> = rows m ! i" using map_nth[of "rows m ! i"] len by simp
    finally show "map (\<lambda>i. map (\<lambda>j. ravel_F m ! (j * nrows m + i)) [0..<ncols m]) [0..<nrows m] ! i = rows m ! i"
      using i by simp
  qed
  then show ?thesis by (simp add: unravel_F_def)
qed


lemma counts_eq:
  "counts (binary_mask_to_rle m) =
     (if ravel_F m \<noteq> [] \<and> hd (ravel_F m) = 1 then [0] else []) @
     map (\<lambda>g. length (snd g)) (groupby (ravel_F m))"
proof (cases "ravel_F m = []")
  case True
  then show ?thesis by (simp add: binary_mask_to_rle_def rle_loop_eq)
next
  case False
  then have "fst (hd (groupby (ravel_F m))) = hd (ravel_F m)" by (rule hd_groupby)
  with False show ?thesis by (simp add: binary_mask_to_rle_def rle_loop_eq)
qed

lemma binary_ravel_F:
  assumes "wf_ndarray m" "is_binary m"
  shows "list_all (\<lambda>v. v = 0 \<or> v = 1) (ravel_F m)"
proof -
  have "\<And>r j. r \<in> set (rows m) \<Longrightarrow> j < ncols m \<Longrightarrow> r ! j = 0 \<or> r ! j = 1"
  proof -
    fix r j assume r: "r \<in> set (rows m)" and j: "j < ncols m"
    then have "j < length r" using assms(1) by (simp add: wf_ndarray_def list_all_iff)
    then have "r ! j \<in> set r" by simp
    then show "r ! j = 0 \<or> r ! j = 1" using assms(2) r by (auto simp: is_binary_def list_all_iff)
  qed
  then show ?thesis by (auto simp: ravel_F_def list_all_iff)
qed

lemma sum_counts: "sum_list (counts (binary_mask_to_rle m)) = nrows m * ncols m"
  by (simp add: counts_eq sum_groupby length_ravel_F)

lemma replay_counts:
  assumes "wf_ndarray m" "is_binary m"
  shows "replay 0 (counts (binary_mask_to_rle m)) = ravel_F m"
proof -
  let ?xs = "ravel_F m"
  have bin: "list_all (\<lambda>v. v = 0 \<or> v = 1) ?xs" using assms by (rule binary_ravel_F)
  show ?thesis
  proof (cases "?xs \<noteq> [] \<and> hd ?xs = 1")
    case True
    then have "replay 1 (map (\<lambda>g. length (snd g)) (groupby ?xs)) = ?xs"
      using replay_groupby[OF bin, of 1] by simp
    moreover from True have "counts (binary_mask_to_rle m) =
        0 # map (\<lambda>g. length (snd g)) (groupby ?xs)"
      using counts_eq[of m] by simp
    ultimately show ?thesis by simp
  next
    case False
    have "?xs = [] \<or> hd ?xs = 0"
    proof (cases ?xs)
      case Nil
      then show ?thesis by simp
    next
      case (Cons a as)
      with bin have "a = 0 \<or> a = 1" by simp
      with False Cons show ?thesis by auto
    qed
    then have "replay 0 (map (\<lambda>g. length (snd g)) (groupby ?xs)) = ?xs"
      by (rule replay_groupby[OF bin])
    moreover from False have "counts (binary_mask_to_rle m) =
        map (\<lambda>g. length (snd g)) (groupby ?xs)"
      using counts_eq[of m] by auto
    ultimately show ?thesis by simp
  qed
qed

lemma decode_encode:
  assumes "wf_ndarray m" "is_binary m"
  shows "rle_decode (binary_mask_to_rle m) = Some m"
proof -
  have "size_hw (binary_mask_to_rle m) = [nrows m, ncols m]"
    by (simp add: binary_mask_to_rle_def)
  then show ?thesis
    using assms by (simp add: rle_decode_def sum_counts replay_counts unravel_ravel)
qed


lemma groupby_hd_snd: "g \<in> set (groupby xs) \<Longrightarrow> hd (snd g) = fst g"
proof -
  assume g: "g \<in> set (groupby xs)"
  obtain v es where ves: "g = (v, es)" by (cases g)
  with g have "es \<noteq> [] \<and> es = replicate (length es) v" by (simp add: groupby_run)
  then obtain n where "es = replicate (Suc n) v" by (cases "length es") auto
  with ves show ?thesis by simp
qed

lemma maximal_runs_groupby: "maximal_runs (map snd (groupby xs)) xs"
proof -
  have a: "list_all (\<lambda>r. r \<noteq> [] \<and> list_all (\<lambda>x. x = hd r) r) (map snd (groupby xs))"
  proof -
    have "\<And>g. g \<in> set (groupby xs) \<Longrightarrow> snd g \<noteq> [] \<and> (\<forall>x\<in>set (snd g). x = hd (snd g))"
    proof -
      fix g assume g: "g \<in> set (groupby xs)"
      then have r: "snd g \<noteq> [] \<and> snd g = replicate (length (snd g)) (fst g)"
        using groupby_run[of "fst g" "snd g" xs] by simp
      then have "set (snd g) \<subseteq> {fst g}" using set_replicate_conv_if[of "length (snd g)" "fst g"] by auto
      then have "\<forall>x\<in>set (snd g). x = fst g" by auto
      with r g show "snd g \<noteq> [] \<and> (\<forall>x\<in>set (snd g). x = hd (snd g))"
        by (simp add: groupby_hd_snd)
    qed
    then show ?thesis by (simp add: list_all_iff)
  qed
  have "map hd (map snd (groupby xs)) = map fst (groupby xs)"
    by (simp add: groupby_hd_snd)
  then have "distinct_adj (map hd (map snd (groupby xs)))"
    by (simp only: groupby_distinct_adj)
  with a show ?thesis by (simp add: maximal_runs_def concat_groupby)
qed

lemma alternate_nth:
  fixes ks :: "uint8 list"
  assumes "distinct_adj ks" "list_all (\<lambda>v. v = 0 \<or> v = 1) ks" "k < length ks"
  shows "ks ! k = (if even k then hd ks else 1 - hd ks)"
  using assms(3)
proof (induction k)
  case 0
  then show ?case by (cases ks) auto
next
  case (Suc k)
  have "\<forall>i. Suc i < length ks \<longrightarrow> ks ! i \<noteq> ks ! Suc i"
    using assms(1) by (simp add: distinct_adj_conv_nth)
  with Suc.prems have ne: "ks ! k \<noteq> ks ! Suc k" by blast
  have a: "ks ! k = 0 \<or> ks ! k = 1" and b: "ks ! Suc k = 0 \<or> ks ! Suc k = 1"
    using assms(2) Suc.prems by (auto simp: list_all_length)
  have ih: "ks ! k = (if even k then hd ks else 1 - hd ks)"
    using Suc by simp
  show ?case
  proof (cases "even k")
    case True
    with ih have "hd ks = ks ! k" by simp
    with a b ne show ?thesis using True by auto
  next
    case False
    with ih have "ks ! k = 1 - hd ks" by simp
    with a b ne show ?thesis using False by auto
  qed
qed

lemma groupby_keys_subset: "set (map fst (groupby xs)) \<subseteq> set xs"
proof (induction xs rule: groupby.induct)
  case 1
  then show ?case by simp
next
  case (2 x xs)
  then show ?case by (auto dest: set_dropWhileD)
qed

lemma counts_pos:
  "k < length (groupby xs) \<Longrightarrow> 0 < length (snd (groupby xs ! k))"
  using groupby_run[of "fst (groupby xs ! k)" "snd (groupby xs ! k)" xs] by simp

lemma wf_full: "wf_ndarray (full h w v)" by (simp add: full_def wf_ndarray_def list_all_iff)
lemma wf_single_pixel: "wf_ndarray (single_pixel h w i0 j0)"
  by (simp add: single_pixel_def wf_ndarray_def list_all_iff)
lemma wf_checkerboard: "wf_ndarray (checkerboard h w)"
  by (simp add: checkerboard_def wf_ndarray_def list_all_iff)
lemma binary_full: "v = 0 \<or> v = 1 \<Longrightarrow> is_binary (full h w v)"
  by (auto simp: full_def is_binary_def list_all_iff)
lemma binary_single_pixel: "is_binary (single_pixel h w i0 j0)"
  by (auto simp: single_pixel_def is_binary_def list_all_iff)
lemma binary_checkerboard: "is_binary (checkerboard h w)"
  by (auto simp: checkerboard_def is_binary_def list_all_iff)

lemma runs_alternate:
  assumes "wf_ndarray m" "is_binary m" "k < length (groupby (ravel_F m))"
  shows "hd (map snd (groupby (ravel_F m)) ! k) =
           (if even (k + (if ravel_F m \<noteq> [] \<and> hd (ravel_F m) = 1 then 1 else 0)) then 0 else 1)"
proof -
  let ?xs = "ravel_F m"
  let ?ks = "map fst (groupby ?xs)"
  have bin: "list_all (\<lambda>v. v = 0 \<or> v = 1) ?xs" using assms(1,2) by (rule binary_ravel_F)
  then have binks: "list_all (\<lambda>v. v = 0 \<or> v = 1) ?ks"
    using groupby_keys_subset[of ?xs] unfolding list_all_iff by blast
  have ne: "?xs \<noteq> []" using assms(3) by auto
  then have "groupby ?xs \<noteq> []" by simp
  then have "hd ?ks = fst (hd (groupby ?xs))" by (simp add: hd_map)
  with ne have hdks: "hd ?ks = hd ?xs" by (simp add: hd_groupby)
  have hd01: "hd ?xs = 0 \<or> hd ?xs = 1" using bin ne by (cases ?xs) auto
  have k: "k < length ?ks" using assms(3) by simp
  have alt: "?ks ! k = (if even k then hd ?ks else 1 - hd ?ks)"
    using groupby_distinct_adj binks k by (rule alternate_nth)
  have "groupby ?xs ! k \<in> set (groupby ?xs)" using assms(3) by simp
  then have "hd (snd (groupby ?xs ! k)) = fst (groupby ?xs ! k)" by (rule groupby_hd_snd)
  then have "hd (map snd (groupby ?xs) ! k) = ?ks ! k"
    using assms(3) by simp
  with alt hdks have "hd (map snd (groupby ?xs) ! k) = (if even k then hd ?xs else 1 - hd ?xs)"
    by simp
  with hd01 ne show ?thesis by auto
qed

text \<open>
  Claim C1. Decoding the encoding of a binary mask gives the mask back: replaying the
  counts as runs of background and foreground in turn, laid out column by column on a
  grid of the recorded size, reproduces every rectangular array of zeros and ones. This
  covers in particular the all-zero, all-one, single-pixel and checkerboard masks of any
  size.
\<close>

theorem rle_roundtrip:
  "(wf_ndarray m \<and> is_binary m \<longrightarrow> rle_decode (binary_mask_to_rle m) = Some m) \<and>
   rle_decode (binary_mask_to_rle (full h w 0)) = Some (full h w 0) \<and>
   rle_decode (binary_mask_to_rle (full h w 1)) = Some (full h w 1) \<and>
   rle_decode (binary_mask_to_rle (single_pixel h w i0 j0)) = Some (single_pixel h w i0 j0) \<and>
   rle_decode (binary_mask_to_rle (checkerboard h w)) = Some (checkerboard h w)"
  by (simp add: decode_encode wf_full wf_single_pixel wf_checkerboard binary_full
      binary_single_pixel binary_checkerboard)

theorem rle_roundtrip_witness:
  "wf_ndarray \<lparr>ncols = 3, rows = [[0, 1, 0], [1, 0, 1 :: uint8]]\<rparr> \<and>
   is_binary \<lparr>ncols = 3, rows = [[0, 1, 0], [1, 0, 1]]\<rparr> \<and>
   binary_mask_to_rle \<lparr>ncols = 3, rows = [[0, 1, 0], [1, 0, 1]]\<rparr> =
     \<lparr>counts = [1, 2, 2, 1], size_hw = [2, 3]\<rparr> \<and>
   rle_decode \<lparr>counts = [1, 2, 2, 1], size_hw = [2, 3]\<rparr> =
     Some \<lparr>ncols = 3, rows = [[0, 1, 0], [1, 0, 1]]\<rparr>"
proof -
  let ?m = "\<lparr>ncols = 3, rows = [[0, 1, 0], [1, 0, 1 :: uint8]]\<rparr>"
  have wf: "wf_ndarray ?m" by (simp add: wf_ndarray_def)
  have bin: "is_binary ?m" by (simp add: is_binary_def)
  have enc: "binary_mask_to_rle ?m = \<lparr>counts = [1, 2, 2, 1], size_hw = [2, 3]\<rparr>"
    by (simp add: binary_mask_to_rle_def ravel_F_def nrows_def upt_rec)
  from rle_roundtrip[of ?m] wf bin have "rle_decode (binary_mask_to_rle ?m) = Some ?m" by blast
  with wf bin enc show ?thesis by simp
qed

text \<open>
  Claim C3. The counts of the encoding of a mask of \<open>height\<close> rows and \<open>width\<close>
  columns add up to \<open>height * width\<close>, and the recorded size is \<open>[height, width]\<close>.
\<close>

theorem rle_sum_counts:
  "sum_list (counts (binary_mask_to_rle m)) = nrows m * ncols m \<and>
   size_hw (binary_mask_to_rle m) = [nrows m, ncols m]"
proof
  show "sum_list (counts (binary_mask_to_rle m)) = nrows m * ncols m"
    by (rule sum_counts)
  show "size_hw (binary_mask_to_rle m) = [nrows m, ncols m]"
    by (simp add: binary_mask_to_rle_def)
qed

text \<open>
  Claim C9. A count that is zero can only be the first one, and then the first pixel in
  column-major order is foreground: every later count is the length of a non-empty run.
\<close>

theorem rle_zero_only_first:
  "\<forall>k < length (counts (binary_mask_to_rle m)).
     counts (binary_mask_to_rle m) ! k = 0 \<longrightarrow>
       k = 0 \<and> ravel_F m \<noteq> [] \<and> hd (ravel_F m) = 1"
proof (intro allI impI)
  fix k
  let ?xs = "ravel_F m"
  let ?cs = "counts (binary_mask_to_rle m)"
  assume k: "k < length ?cs" and z: "?cs ! k = 0"
  show "k = 0 \<and> ?xs \<noteq> [] \<and> hd ?xs = 1"
  proof (cases "?xs \<noteq> [] \<and> hd ?xs = 1")
    case True
    then have cs: "?cs = 0 # map (\<lambda>g. length (snd g)) (groupby ?xs)" by (simp add: counts_eq)
    have "k = 0"
    proof (rule ccontr)
      assume "k \<noteq> 0"
      then obtain k' where k': "k = Suc k'" by (cases k) auto
      with k cs have "k' < length (groupby ?xs)" by simp
      then have "0 < length (snd (groupby ?xs ! k'))" by (rule counts_pos)
      with z cs k' \<open>k' < length (groupby ?xs)\<close> show False by simp
    qed
    with True show ?thesis by simp
  next
    case False
    then have cs: "?cs = map (\<lambda>g. length (snd g)) (groupby ?xs)" by (simp add: counts_eq)
    with k have "k < length (groupby ?xs)" by simp
    then have "0 < length (snd (groupby ?xs ! k))" by (rule counts_pos)
    with z cs \<open>k < length (groupby ?xs)\<close> show ?thesis by simp
  qed
qed

theorem rle_zero_only_first_witness:
  "counts (binary_mask_to_rle \<lparr>ncols = 2, rows = [[1, 0], [0, 0]]\<rparr>) = [0, 1, 3] \<and>
   ravel_F \<lparr>ncols = 2, rows = [[1, 0], [0, 0 :: uint8]]\<rparr> \<noteq> [] \<and>
   hd (ravel_F \<lparr>ncols = 2, rows = [[1, 0], [0, 0 :: uint8]]\<rparr>) = 1"
proof -
  let ?m = "\<lparr>ncols = 2, rows = [[1, 0], [0, 0 :: uint8]]\<rparr>"
  have enc: "counts (binary_mask_to_rle ?m) = [0, 1, 3]"
    by (simp add: binary_mask_to_rle_def ravel_F_def nrows_def upt_rec)
  then have "0 < length (counts (binary_mask_to_rle ?m))" "counts (binary_mask_to_rle ?m) ! 0 = 0"
    by simp_all
  with rle_zero_only_first[of ?m] have "ravel_F ?m \<noteq> [] \<and> hd (ravel_F ?m) = 1"
    by blast
  with enc show ?thesis by simp
qed

text \<open>
  Claim C2. The sequence that is encoded is the column-major traversal of the mask: it
  has one entry per pixel, and the pixel of row \<open>i\<close> and column \<open>j\<close> stands at
  position \<open>j * height + i\<close>. For a binary mask the counts are the lengths of the
  maximal runs of that sequence, in order; the runs are background and foreground in
  turn, the count at an even position standing for background; a zero is put in front
  exactly when the first pixel is foreground. The 2x2 mask with only the first pixel set encodes to
  counts \<open>[0, 1, 3]\<close> and size \<open>[2, 2]\<close>, the 4x4 all-background mask to counts
  \<open>[16]\<close> and size \<open>[4, 4]\<close>.
\<close>

theorem rle_maximal_runs:
  "(wf_ndarray m \<and> is_binary m \<longrightarrow>
     length (ravel_F m) = nrows m * ncols m \<and>
     (\<forall>i < nrows m. \<forall>j < ncols m. ravel_F m ! (j * nrows m + i) = elem m i j) \<and>
     (\<exists>rs. maximal_runs rs (ravel_F m) \<and>
        counts (binary_mask_to_rle m) =
          (if ravel_F m \<noteq> [] \<and> hd (ravel_F m) = 1 then [0] else []) @ map length rs \<and>
        (\<forall>k < length rs.
           hd (rs ! k) =
             (if even (k + (if ravel_F m \<noteq> [] \<and> hd (ravel_F m) = 1 then 1 else 0))
              then 0 else 1))) \<and>
     ((counts (binary_mask_to_rle m) \<noteq> [] \<and> hd (counts (binary_mask_to_rle m)) = 0) \<longleftrightarrow>
      (ravel_F m \<noteq> [] \<and> hd (ravel_F m) = 1)) \<and>
     size_hw (binary_mask_to_rle m) = [nrows m, ncols m]) \<and>
   binary_mask_to_rle \<lparr>ncols = 2, rows = [[1, 0], [0, 0]]\<rparr> =
     \<lparr>counts = [0, 1, 3], size_hw = [2, 2]\<rparr> \<and>
   binary_mask_to_rle (full 4 4 0) = \<lparr>counts = [16], size_hw = [4, 4]\<rparr>"
proof (intro conjI impI)
  show "length (ravel_F m) = nrows m * ncols m"
    by (rule length_ravel_F)
next
  assume "wf_ndarray m \<and> is_binary m"
  then show "\<forall>i < nrows m. \<forall>j < ncols m. ravel_F m ! (j * nrows m + i) = elem m i j"
    by (simp add: ravel_F_nth elem_def)
next
  assume h: "wf_ndarray m \<and> is_binary m"
  let ?xs = "ravel_F m"
  let ?rs = "map snd (groupby ?xs)"
  have "maximal_runs ?rs ?xs" by (rule maximal_runs_groupby)
  moreover have "counts (binary_mask_to_rle m) =
      (if ?xs \<noteq> [] \<and> hd ?xs = 1 then [0] else []) @ map length ?rs"
    by (simp add: counts_eq comp_def)
  moreover have "\<forall>k < length ?rs. hd (?rs ! k) =
      (if even (k + (if ?xs \<noteq> [] \<and> hd ?xs = 1 then 1 else 0)) then 0 else 1)"
    using h runs_alternate[of m] by simp
  ultimately show "\<exists>rs. maximal_runs rs ?xs \<and>
        counts (binary_mask_to_rle m) =
          (if ?xs \<noteq> [] \<and> hd ?xs = 1 then [0] else []) @ map length rs \<and>
        (\<forall>k < length rs.
           hd (rs ! k) =
             (if even (k + (if ?xs \<noteq> [] \<and> hd ?xs = 1 then 1 else 0))
              then 0 else 1))"
    by blast
next
  let ?xs = "ravel_F m"
  show "(counts (binary_mask_to_rle m) \<noteq> [] \<and> hd (counts (binary_mask_to_rle m)) = 0) \<longleftrightarrow>
      (?xs \<noteq> [] \<and> hd ?xs = 1)"
  proof (cases "?xs \<noteq> [] \<and> hd ?xs = 1")
    case True
    then show ?thesis by (simp add: counts_eq)
  next
    case False
    have "groupby ?xs \<noteq> [] \<Longrightarrow> 0 < length (snd (hd (groupby ?xs)))"
      using counts_pos[of 0 ?xs] by (simp add: hd_conv_nth)
    with False show ?thesis by (auto simp: counts_eq hd_map)
  qed
next
  show "size_hw (binary_mask_to_rle m) = [nrows m, ncols m]"
    by (simp add: binary_mask_to_rle_def)
next
  show "binary_mask_to_rle \<lparr>ncols = 2, rows = [[1, 0], [0, 0]]\<rparr> =
     \<lparr>counts = [0, 1, 3], size_hw = [2, 2]\<rparr>"
    by (simp add: binary_mask_to_rle_def ravel_F_def nrows_def upt_rec)
next
  have "ravel_F (full 4 4 (0::uint8)) = replicate 16 0"
    by (simp add: ravel_F_def full_def upt_rec numeral_eq_Suc)
  moreover have "groupby (replicate 16 (0::uint8)) = [(0, replicate 16 0)]"
    by (simp add: numeral_eq_Suc)
  ultimately show "binary_mask_to_rle (full 4 4 0) = \<lparr>counts = [16], size_hw = [4, 4]\<rparr>"
    by (simp add: binary_mask_to_rle_def nrows_def full_def)
qed

theorem rle_maximal_runs_witness:
  "wf_ndarray \<lparr>ncols = 3, rows = [[0, 0, 1], [1, 1, 0 :: uint8]]\<rparr> \<and>
   is_binary \<lparr>ncols = 3, rows = [[0, 0, 1], [1, 1, 0]]\<rparr> \<and>
   ravel_F \<lparr>ncols = 3, rows = [[0, 0, 1], [1, 1, 0 :: uint8]]\<rparr> = [0, 1, 0, 1, 1, 0] \<and>
   counts (binary_mask_to_rle \<lparr>ncols = 3, rows = [[0, 0, 1], [1, 1, 0]]\<rparr>) =
     [1, 1, 1, 2, 1] \<and>
   (\<exists>rs. maximal_runs rs [0, 1, 0, 1, 1, 0 :: uint8] \<and> [1, 1, 1, 2, 1] = map length rs \<and>
      (\<forall>k < length rs. hd (rs ! k) = (if even k then 0 else 1)))"
proof -
  let ?m = "\<lparr>ncols = 3, rows = [[0, 0, 1], [1, 1, 0 :: uint8]]\<rparr>"
  have wf: "wf_ndarray ?m" by (simp add: wf_ndarray_def)
  have bin: "is_binary ?m" by (simp add: is_binary_def)
  have flat: "ravel_F ?m = [0, 1, 0, 1, 1, 0]" by (simp add: ravel_F_def upt_rec)
  have enc: "counts (binary_mask_to_rle ?m) = [1, 1, 1, 2, 1]"
    by (simp add: binary_mask_to_rle_def flat)
  from rle_maximal_runs[of ?m] wf bin
  have "\<exists>rs. maximal_runs rs (ravel_F ?m) \<and>
        counts (binary_mask_to_rle ?m) =
          (if ravel_F ?m \<noteq> [] \<and> hd (ravel_F ?m) = 1 then [0] else []) @ map length rs \<and>
        (\<forall>k < length rs.
           hd (rs ! k) =
             (if even (k + (if ravel_F ?m \<noteq> [] \<and> hd (ravel_F ?m) = 1 then 1 else 0))
              then 0 else 1))"
    by blast
  then have "\<exists>rs. maximal_runs rs [0, 1, 0, 1, 1, 0 :: uint8] \<and> [1, 1, 1, 2, 1] = map length rs \<and>
      (\<forall>k < length rs. hd (rs ! k) = (if even k then 0 else 1))"
    unfolding flat enc by simp
  with wf bin flat enc show ?thesis by simp
qed

section \<open>Properties of the float operations\<close>

lemma round_half_even_of_int: "round_half_even (of_int n) = n"
  by (simp add: round_half_even_def)

lemma round64_dyadic:
  assumes m: "\<bar>m\<bar> < 2 ^ 53" and k: "- 1074 \<le> k"
  shows "round64 (of_int m * 2 powr of_int k) = of_int m * 2 powr of_int k"
proof (cases "m = 0")
  case True
  then show ?thesis by (simp add: round64_def)
next
  case False
  let ?x = "of_int m * 2 powr of_int k :: real"
  have x0: "?x \<noteq> 0" using False by simp
  have am: "0 < \<bar>real_of_int m\<bar>" using False by simp
  have absx: "\<bar>?x\<bar> = \<bar>real_of_int m\<bar> * 2 powr of_int k" by (simp add: abs_mult)
  have "log 2 \<bar>?x\<bar> = log 2 \<bar>real_of_int m\<bar> + of_int k"
    unfolding absx using am by (simp add: log_mult)
  moreover have "log 2 \<bar>real_of_int m\<bar> < 53"
  proof -
    have "real_of_int \<bar>m\<bar> < 2 ^ 53" using m by (simp only: of_int_less_numeral_power_cancel_iff)
    then have "\<bar>real_of_int m\<bar> < 2 powr 53" by (simp add: powr_numeral)
    then show ?thesis using am by (simp add: log_less_iff)
  qed
  ultimately have "log 2 \<bar>?x\<bar> < of_int (53 + k)" by simp
  then have "\<lfloor>log 2 \<bar>?x\<bar>\<rfloor> < 53 + k" by (simp only: floor_less_iff)
  then have e0: "\<lfloor>log 2 \<bar>?x\<bar>\<rfloor> \<le> 52 + k" by simp
  define e where "e = max \<lfloor>log 2 \<bar>?x\<bar>\<rfloor> (- 1022)"
  have ek: "e - 52 \<le> k" using e0 k by (simp add: e_def)
  define d where "d = nat (k - (e - 52))"
  have dk: "of_int k = real d + of_int (e - 52)" using ek by (simp add: d_def)
  have pk: "(2::real) powr of_int k = 2 ^ d * 2 powr of_int (e - 52)"
    unfolding dk by (simp add: powr_add powr_realpow)
  have u0: "2 powr real_of_int (e - 52) \<noteq> 0" by simp
  have q: "?x / 2 powr of_int (e - 52) = of_int (m * 2 ^ d)"
    unfolding pk using u0 by simp
  have "round64 ?x = of_int (round_half_even (?x / 2 powr of_int (e - 52))) * 2 powr of_int (e - 52)"
    using x0 unfolding round64_def e_def by (simp add: Let_def)
  also have "\<dots> = of_int (m * 2 ^ d) * 2 powr of_int (e - 52)"
    unfolding q by (simp only: round_half_even_of_int)
  also have "\<dots> = ?x" unfolding pk by simp
  finally show ?thesis .
qed

lemma round64_of_int: "\<bar>n\<bar> < 2 ^ 53 \<Longrightarrow> round64 (of_int n) = of_int n"
  using round64_dyadic[of n 0] by simp

lemma fl64_of_int:
  assumes "\<bar>n\<bar> < 2 ^ 53"
  shows "fl64 (of_int n) = Finite (of_int n)"
proof -
  have "real_of_int \<bar>n\<bar> < 2 ^ 53" using assms by (simp only: of_int_less_numeral_power_cancel_iff)
  moreover have "(2::real) ^ 53 < 2 ^ 1024" by (rule power_strict_increasing) simp_all
  ultimately have "\<bar>real_of_int n\<bar> < 2 ^ 1024" by simp
  then show ?thesis using round64_of_int[OF assms] by (simp add: fl64_def)
qed

lemma fl64_numeral [simp]:
  "numeral n < (9007199254740992 :: int) \<Longrightarrow> fl64 (numeral n) = Finite (numeral n)"
  using fl64_of_int[of "numeral n"] by simp

lemma fl64_neg_numeral [simp]:
  "numeral n < (9007199254740992 :: int) \<Longrightarrow> fl64 (- numeral n) = Finite (- numeral n)"
  using fl64_of_int[of "- numeral n"] by simp

lemma fl64_0 [simp]: "fl64 0 = Finite 0" using fl64_of_int[of 0] by simp

lemma fl64_1 [simp]: "fl64 1 = Finite 1" using fl64_of_int[of 1] by simp

lemma fl64_neg_1 [simp]: "fl64 (- 1) = Finite (- 1)" using fl64_of_int[of "- 1"] by simp

lemma round_half_even_numeral [simp]: "round_half_even (numeral n) = numeral n"
  using round_half_even_of_int[of "numeral n"] by simp

lemma round_half_even_neg_numeral [simp]: "round_half_even (- numeral n) = - numeral n"
  using round_half_even_of_int[of "- numeral n"] by simp

lemma round_half_even_0 [simp]: "round_half_even 0 = 0"
  using round_half_even_of_int[of 0] by simp

section \<open>Properties of cropping and thresholding\<close>

lemma take_drop_upt:
  "q \<le> length xs \<Longrightarrow> take (q - p) (drop p xs) = map ((!) xs) [p..<q]"
  by (rule nth_equalityI) auto

lemma slice_bound_le: "slice_bound n b \<le> n"
  by (auto simp: slice_bound_def)

lemma py_slice_upt:
  "py_slice start stop xs =
     map ((!) xs) [slice_bound (length xs) start..<slice_bound (length xs) stop]"
  unfolding py_slice_def slice_len_def
  by (rule take_drop_upt) (rule slice_bound_le)

lemma slice2_window:
  assumes "wf_ndarray a"
  shows "slice2 r0 r1 c0 c1 a =
           window (slice_bound (nrows a) r0) (slice_bound (nrows a) r1)
                  (slice_bound (ncols a) c0) (slice_bound (ncols a) c1) a"
proof -
  have len: "\<And>i. i < nrows a \<Longrightarrow> length (rows a ! i) = ncols a"
    using assms by (simp add: wf_ndarray_def list_all_length nrows_def)
  have "map (py_slice c0 c1) (py_slice r0 r1 (rows a)) =
        map (\<lambda>i. py_slice c0 c1 (rows a ! i)) [slice_bound (nrows a) r0..<slice_bound (nrows a) r1]"
    by (simp add: py_slice_upt[of r0 r1] nrows_def comp_def)
  also have "\<dots> = map (\<lambda>i. map (\<lambda>j. elem a i j) [slice_bound (ncols a) c0..<slice_bound (ncols a) c1])
        [slice_bound (nrows a) r0..<slice_bound (nrows a) r1]"
  proof (rule map_cong[OF refl])
    fix i assume "i \<in> set [slice_bound (nrows a) r0..<slice_bound (nrows a) r1]"
    then have "i < nrows a" using slice_bound_le[of "nrows a" r1] by simp
    then have "length (rows a ! i) = ncols a" by (rule len)
    then show "py_slice c0 c1 (rows a ! i) =
        map (\<lambda>j. elem a i j) [slice_bound (ncols a) c0..<slice_bound (ncols a) c1]"
      by (simp add: py_slice_upt elem_def)
  qed
  finally show ?thesis by (simp add: slice2_def window_def slice_len_def)
qed

lemma wf_slice2: "wf_ndarray a \<Longrightarrow> wf_ndarray (slice2 r0 r1 c0 c1 a)"
  by (simp add: slice2_window window_def wf_ndarray_def list_all_iff)






lemma gbm_shape: "shape (fst (generate_binary_mask sm c)) = shape sm"
  by (simp add: generate_binary_mask_def Let_def astype_uint8_def eq_scalar_def shape_def nrows_def)

lemma gbm_rows_len:
  "i < nrows sm \<Longrightarrow> length (rows (fst (generate_binary_mask sm c)) ! i) = length (rows sm ! i)"
  by (simp add: generate_binary_mask_def Let_def astype_uint8_def eq_scalar_def nrows_def)

lemma gbm_elem:
  assumes "i < nrows sm" "j < length (rows sm ! i)"
  shows "elem (fst (generate_binary_mask sm c)) i j = (if elem sm i j = c then 1 else 0)"
  using assms
  by (simp add: generate_binary_mask_def Let_def astype_uint8_def eq_scalar_def nrows_def elem_def)

lemma count_list_map_if:
  "count_list (map (\<lambda>b. if b then 1 else (0::uint8)) bs) 1 = length (filter (\<lambda>b. b) bs)"
  by (induction bs) auto

lemma count_nonzero_astype: "count_nonzero a = count_true (astype_uint8 a)"
proof -
  have "sum_list (map (\<lambda>r. length (filter (\<lambda>b. b) r)) rs) =
        sum_list (map (\<lambda>r. count_list r 1) (map (map (\<lambda>b. if b then 1 else (0::uint8))) rs))"
    for rs :: "bool list list"
    by (induction rs) (simp_all add: count_list_map_if)
  then show ?thesis by (simp add: count_nonzero_def count_true_def astype_uint8_def)
qed

lemma gbm_area:
  "snd (generate_binary_mask sm c) = count_true (fst (generate_binary_mask sm c))"
  by (simp add: generate_binary_mask_def Let_def count_nonzero_astype)

lemma gbm_wf: "wf_ndarray sm \<Longrightarrow> wf_ndarray (fst (generate_binary_mask sm c))"
  by (simp add: generate_binary_mask_def Let_def astype_uint8_def eq_scalar_def wf_ndarray_def list_all_iff)

lemma gbm_binary: "is_binary (fst (generate_binary_mask sm c))"
  by (auto simp: generate_binary_mask_def Let_def astype_uint8_def eq_scalar_def is_binary_def list_all_iff)

section \<open>What a run returns\<close>

lemma object_step_brace:
  "obj_name obj = ''brace'' \<Longrightarrow> object_step args img seg w h st obj = Inr st"
  by (simp add: object_step_def)

lemma object_step_ok:
  assumes "obj_name obj \<noteq> ''brace''" "object_ok args (f, obj)"
  shows "object_step args (img_name_of (file_name f)) (seg_array f) (size_width f) (size_height f) st obj =
     Inr (extend_state [(img_name_of (file_name f) \<in> train_set args, record_of args f (counter st) obj)] st)"
proof -
  let ?bb = "object_bbox (size_width f) (size_height f) obj"
  from assms(2) obtain cat col img crop where
    c: "category_lookup args (obj_name obj) = Some cat" and
    k: "class_colors args (obj_name obj) = Some col" and
    i: "img_lookup args (img_name_of (file_name f)) = Some img" and
    e: "extract_area_inside_bbox ?bb (seg_array f) = Inr crop"
    by (cases "extract_area_inside_bbox ?bb (seg_array f)") (auto simp: object_ok_def)
  show ?thesis
    using assms(1) c k i e
    by (simp add: object_step_def record_of_def extend_state_def Let_def split_beta)
qed

lemma object_step_not_ok:
  assumes "obj_name obj \<noteq> ''brace''" "\<not> object_ok args (f, obj)"
  shows "isl (object_step args (img_name_of (file_name f)) (seg_array f) (size_width f) (size_height f) st obj)"
  using assms
  by (auto simp: object_step_def object_ok_def Let_def split_beta split: option.splits sum.splits)

lemma extend_state_Nil [simp]: "extend_state [] st = st"
  by (simp add: extend_state_def)

lemma extend_state_append: "extend_state (g1 @ g2) st = extend_state g2 (extend_state g1 st)"
  by (simp add: extend_state_def)

lemma counter_extend [simp]: "counter (extend_state g st) = counter st + int (length g)"
  by (simp add: extend_state_def)

lemma length_generated [simp]: "length (generated args c qs) = length qs"
  by (induction args c qs rule: generated.induct) auto

lemma generated_append:
  "generated args c (xs @ ys) = generated args c xs @ generated args (c + int (length xs)) ys"
  by (induction args c xs rule: generated.induct) (auto simp: add.assoc)

lemma objects_loop_eq:
  "objects_loop args (img_name_of (file_name f)) (seg_array f) (size_width f) (size_height f) st objs =
     Inr st' \<longleftrightarrow>
   list_all (object_ok args) (map (Pair f) (filter (\<lambda>obj. obj_name obj \<noteq> ''brace'') objs)) \<and>
   st' = extend_state (generated args (counter st)
           (map (Pair f) (filter (\<lambda>obj. obj_name obj \<noteq> ''brace'') objs))) st"
proof (induction objs arbitrary: st)
  case Nil
  then show ?case by auto
next
  case (Cons obj objs)
  show ?case
  proof (cases "obj_name obj = ''brace''")
    case True
    then show ?thesis using Cons.IH[of st] by (simp add: object_step_brace)
  next
    case nb: False
    show ?thesis
    proof (cases "object_ok args (f, obj)")
      case True
      let ?p = "(img_name_of (file_name f) \<in> train_set args, record_of args f (counter st) obj)"
      have step: "objects_loop args (img_name_of (file_name f)) (seg_array f) (size_width f) (size_height f) st (obj # objs) =
            objects_loop args (img_name_of (file_name f)) (seg_array f) (size_width f) (size_height f) (extend_state [?p] st) objs"
        by (simp add: object_step_ok[OF nb True])
      have l: "list_all (object_ok args)
            (map (Pair f) (filter (\<lambda>obj. obj_name obj \<noteq> ''brace'') (obj # objs))) =
          list_all (object_ok args)
            (map (Pair f) (filter (\<lambda>obj. obj_name obj \<noteq> ''brace'') objs))"
        using nb True by simp
      have e: "extend_state (generated args (counter st)
            (map (Pair f) (filter (\<lambda>obj. obj_name obj \<noteq> ''brace'') (obj # objs)))) st =
          extend_state (generated args (counter (extend_state [?p] st))
            (map (Pair f) (filter (\<lambda>obj. obj_name obj \<noteq> ''brace'') objs))) (extend_state [?p] st)"
        using nb by (simp add: extend_state_def)
      show ?thesis unfolding step l e by (rule Cons.IH)
    next
      case False
      from object_step_not_ok[OF nb False, of st]
      obtain e where "object_step args (img_name_of (file_name f)) (seg_array f) (size_width f) (size_height f) st obj = Inl e"
        by (cases "object_step args (img_name_of (file_name f)) (seg_array f) (size_width f) (size_height f) st obj") auto
      then show ?thesis using nb False by simp
    qed
  qed
qed

lemma qualifying_Nil [simp]: "qualifying [] = []"
  by (simp add: qualifying_def)

lemma qualifying_Cons:
  "qualifying (f # fs) = map (Pair f) (filter (\<lambda>obj. obj_name obj \<noteq> ''brace'') (objects f)) @ qualifying fs"
  by (simp add: qualifying_def)

lemma files_loop_eq:
  "files_loop args st fs = Inr st' \<longleftrightarrow>
   list_all (object_ok args) (qualifying fs) \<and>
   st' = extend_state (generated args (counter st) (qualifying fs)) st"
proof (induction fs arbitrary: st)
  case Nil
  then show ?case by auto
next
  case (Cons f fs)
  let ?q = "map (Pair f) (filter (\<lambda>obj. obj_name obj \<noteq> ''brace'') (objects f))"
  show ?case
  proof (cases "file_step args st f")
    case (Inl e)
    then have "\<not> list_all (object_ok args) ?q"
      using objects_loop_eq[of args f st "objects f"] by (auto simp: file_step_def)
    with Inl show ?thesis by (simp add: qualifying_Cons)
  next
    case (Inr st1)
    then have ok: "list_all (object_ok args) ?q" and st1: "st1 = extend_state (generated args (counter st) ?q) st"
      using objects_loop_eq[of args f st "objects f" st1] by (auto simp: file_step_def)
    have "files_loop args st (f # fs) = files_loop args st1 fs" using Inr by simp
    then show ?thesis
      using Cons.IH[of st1] ok st1
      by (simp add: qualifying_Cons generated_append extend_state_append)
  qed
qed

lemma generate_annotations_eq:
  "generate_annotations args fs = Inr (train, test) \<longleftrightarrow>
   list_all (object_ok args) (qualifying fs) \<and>
   train = map snd (filter fst (generated args 1 (qualifying fs))) \<and>
   test = map snd (filter (\<lambda>p. \<not> fst p) (generated args 1 (qualifying fs)))"
proof (cases "files_loop args \<lparr>train_annotation_list = [], test_annotation_list = [], counter = 1\<rparr> fs")
  case (Inl e)
  then show ?thesis
    using files_loop_eq[of args "\<lparr>train_annotation_list = [], test_annotation_list = [], counter = 1\<rparr>" fs]
    by (auto simp: generate_annotations_def)
next
  case (Inr st)
  then show ?thesis
    using files_loop_eq[of args "\<lparr>train_annotation_list = [], test_annotation_list = [], counter = 1\<rparr>" fs st]
    by (auto simp: generate_annotations_def extend_state_def)
qed

lemma shuffle_tagged:
  "map snd g \<in> shuffles (map snd (filter fst g)) (map snd (filter (\<lambda>p. \<not> fst p) g))"
  by (induction g) (auto intro: Cons_in_shuffles_leftI Cons_in_shuffles_rightI)

lemma ann_id_record_of [simp]: "ann_id (record_of args f c obj) = c"
  by (simp add: record_of_def Let_def)

lemma bbox_record_of [simp]:
  "bbox (record_of args f c obj) = object_bbox (size_width f) (size_height f) obj"
  by (simp add: record_of_def Let_def)

lemma category_record_of [simp]:
  "category_id (record_of args f c obj) = the (category_lookup args (obj_name obj))"
  by (simp add: record_of_def Let_def)

lemma generated_nth:
  "k < length qs \<Longrightarrow>
   generated args c qs ! k =
     (img_name_of (file_name (fst (qs ! k))) \<in> train_set args,
      record_of args (fst (qs ! k)) (c + int k) (snd (qs ! k)))"
proof (induction args c qs arbitrary: k rule: generated.induct)
  case (1 args c)
  then show ?case by simp
next
  case (2 args c f obj qs)
  then show ?case by (cases k) (auto simp: add.assoc)
qed

lemma ids_generated:
  "map (\<lambda>p. ann_id (snd p)) (generated args c qs) = map (\<lambda>k. c + int k) [0..<length qs]"
  by (rule nth_equalityI) (simp_all add: generated_nth)

lemma ids_from_one: "map (\<lambda>k. 1 + int k) [0..<n] = map int [1..<Suc n]"
  by (induction n) simp_all

lemma sorted_ids: "sorted_wrt (<) (map (\<lambda>k. c + int k) [0..<n])"
  by (simp add: sorted_wrt_iff_nth_less)

lemma generated_set:
  "p \<in> set (generated args c qs) \<Longrightarrow>
   \<exists>q \<in> set qs. \<exists>c'. snd p = record_of args (fst q) c' (snd q)"
proof -
  assume "p \<in> set (generated args c qs)"
  then obtain k where k: "k < length qs" and p: "p = generated args c qs ! k"
    by (auto simp: in_set_conv_nth)
  then have "snd p = record_of args (fst (qs ! k)) (c + int k) (snd (qs ! k))"
    by (simp add: generated_nth)
  with k nth_mem[OF k] show ?thesis by blast
qed

lemma qualifying_set:
  "q \<in> set (qualifying fs) \<longleftrightarrow>
   fst q \<in> set fs \<and> snd q \<in> set (objects (fst q)) \<and> obj_name (snd q) \<noteq> ''brace''"
  by (cases q) (auto simp: qualifying_def)

lemma length_qualifying:
  "length (qualifying fs) =
   length (filter (\<lambda>obj. obj_name obj \<noteq> ''brace'') (concat (map objects fs)))"
  by (induction fs) (simp_all add: qualifying_Cons)

lemma count_list_replicate: "count_list (replicate n x) y = (if x = y then n else 0)"
  by (induction n) auto

lemma count_replay: "count_list (replay 0 cs) 1 = foreground cs"
  by (induction cs rule: foreground.induct) (simp_all add: count_list_replicate)

lemma count_list_concat: "count_list (concat xss) v = sum_list (map (\<lambda>xs. count_list xs v) xss)"
  by (induction xss) simp_all

lemma count_list_sum: "sum_list (map (\<lambda>x. if x = v then 1 else 0) r) = count_list r v"
  by (induction r) simp_all

lemma count_list_nth_sum:
  "sum_list (map (\<lambda>j. if r ! j = v then 1 else 0) [0..<length r]) = count_list r v"
proof -
  have "map (\<lambda>j. if r ! j = v then 1 else (0::nat)) [0..<length r] =
        map (\<lambda>x. if x = v then 1 else 0) (map ((!) r) [0..<length r])"
    by simp
  also have "\<dots> = map (\<lambda>x. if x = v then 1 else 0) r" by (simp only: map_nth)
  finally show ?thesis by (simp only: count_list_sum)
qed

lemma count_columns:
  "\<forall>r\<in>set rs. length r = w \<Longrightarrow>
   sum_list (map (\<lambda>j. count_list (map (\<lambda>r. r ! j) rs) v) [0..<w]) =
   sum_list (map (\<lambda>r. count_list r v) rs)"
proof (induction rs)
  case Nil
  then show ?case by simp
next
  case (Cons r rs)
  have "sum_list (map (\<lambda>j. count_list (map (\<lambda>r. r ! j) (r # rs)) v) [0..<w]) =
        sum_list (map (\<lambda>j. (if r ! j = v then 1 else 0) + count_list (map (\<lambda>r. r ! j) rs) v) [0..<w])"
    by (intro arg_cong[where f = sum_list] map_cong refl) simp
  also have "\<dots> = sum_list (map (\<lambda>j. if r ! j = v then 1 else 0) [0..<w]) +
        sum_list (map (\<lambda>j. count_list (map (\<lambda>r. r ! j) rs) v) [0..<w])"
    by (simp add: sum_list_addf)
  also have "sum_list (map (\<lambda>j. if r ! j = v then 1 else 0) [0..<w]) = count_list r v"
    using Cons.prems count_list_nth_sum[of r v] by simp
  also have "sum_list (map (\<lambda>j. count_list (map (\<lambda>r. r ! j) rs) v) [0..<w]) =
        sum_list (map (\<lambda>r. count_list r v) rs)"
    using Cons by simp
  finally show ?case by simp
qed

lemma count_ravel_F:
  "wf_ndarray m \<Longrightarrow> count_list (ravel_F m) 1 = count_true m"
  using count_columns[of "rows m" "ncols m" 1]
  by (simp add: ravel_F_def count_true_def count_list_concat comp_def wf_ndarray_def list_all_iff)

lemma foreground_counts:
  assumes "wf_ndarray m" "is_binary m"
  shows "foreground (counts (binary_mask_to_rle m)) = count_true m"
proof -
  have "foreground (counts (binary_mask_to_rle m)) = count_list (replay 0 (counts (binary_mask_to_rle m))) 1"
    by (simp only: count_replay)
  also have "\<dots> = count_list (ravel_F m) 1" using assms by (simp only: replay_counts)
  also have "\<dots> = count_true m" using assms(1) by (rule count_ravel_F)
  finally show ?thesis .
qed

lemma wf_extract:
  assumes "wf_ndarray a" "extract_area_inside_bbox bb a = Inr c"
  shows "wf_ndarray c"
  using assms by (auto simp: extract_area_inside_bbox_def wf_slice2 split: sum.splits)

lemma record_of_area:
  assumes "wf_ndarray (seg_array f)" "object_ok args (f, obj)"
  shows "\<exists>bm. wf_ndarray bm \<and> is_binary bm \<and>
           segmentation (record_of args f c obj) = binary_mask_to_rle bm \<and>
           area (record_of args f c obj) = count_true bm \<and>
           area (record_of args f c obj) = foreground (counts (segmentation (record_of args f c obj)))"
proof -
  let ?bb = "object_bbox (size_width f) (size_height f) obj"
  from assms(2) obtain crop where e: "extract_area_inside_bbox ?bb (seg_array f) = Inr crop"
    by (cases "extract_area_inside_bbox ?bb (seg_array f)") (auto simp: object_ok_def)
  then have wfc: "wf_ndarray crop" using assms(1) wf_extract by blast
  let ?m = "generate_binary_mask crop (the (class_colors args (obj_name obj)))"
  have wf: "wf_ndarray (fst ?m)" using wfc by (rule gbm_wf)
  have bin: "is_binary (fst ?m)" by (rule gbm_binary)
  have s: "segmentation (record_of args f c obj) = binary_mask_to_rle (fst ?m)"
    and a: "area (record_of args f c obj) = snd ?m"
    using e by (simp_all add: record_of_def Let_def)
  have "snd ?m = count_true (fst ?m)" by (rule gbm_area)
  moreover have "foreground (counts (binary_mask_to_rle (fst ?m))) = count_true (fst ?m)"
    using wf bin by (rule foreground_counts)
  ultimately show ?thesis using wf bin s a by auto
qed

lemma img_a: "img_name_of ''a.xml'' = ''a''" by (simp add: img_name_of_def)
lemma img_b: "img_name_of ''b.xml'' = ''b''" by (simp add: img_name_of_def)

lemma example_run: "generate_annotations example_args example_files = Inr (example_train, example_test)"
  by (simp add: generate_annotations_def example_args_def example_files_def example_train_def
      example_test_def file_step_def object_step_def object_bbox_def img_a img_b fsub_def
      extract_area_inside_bbox_def slice2_def slice_len_def slice_bound_def py_slice_def
      generate_binary_mask_def eq_scalar_def astype_uint8_def count_nonzero_def
      binary_mask_to_rle_def ravel_F_def nrows_def Let_def upt_rec)

section \<open>The claims about the pipeline\<close>

lemma run_records:
  assumes "generate_annotations args file_list = Inr (train, test)"
  shows "list_all (object_ok args) (qualifying file_list)"
    and "train = map snd (filter fst (generated args 1 (qualifying file_list)))"
    and "test = map snd (filter (\<lambda>p. \<not> fst p) (generated args 1 (qualifying file_list)))"
    and "map snd (generated args 1 (qualifying file_list)) \<in> shuffles train test"
  using assms shuffle_tagged[of "generated args 1 (qualifying file_list)"]
  by (simp_all add: generate_annotations_eq)

lemma run_record_origin:
  assumes "generate_annotations args file_list = Inr (train, test)" "r \<in> set (train @ test)"
  shows "\<exists>q \<in> set (qualifying file_list). \<exists>c. object_ok args q \<and> r = record_of args (fst q) c (snd q)"
proof -
  from run_records(4)[OF assms(1)] have "set (map snd (generated args 1 (qualifying file_list))) = set train \<union> set test"
    by (rule set_shuffles)
  with assms(2) have "r \<in> snd ` set (generated args 1 (qualifying file_list))"
    by simp
  then obtain p where p: "p \<in> set (generated args 1 (qualifying file_list))" and r: "r = snd p"
    by blast
  from generated_set[OF p] obtain q c where "q \<in> set (qualifying file_list)" "snd p = record_of args (fst q) c (snd q)"
    by blast
  moreover from this run_records(1)[OF assms(1)] have "object_ok args q" by (simp add: list_all_iff)
  ultimately show ?thesis using r by blast
qed

text \<open>
  Claim C4. The Binary Mask Generator returns a mask of the shape of the cropped submask
  whose pixel is 1 exactly where the submask equals the intensity and 0 elsewhere,
  together with the number of pixels of that mask that are 1. In every record of a run
  over rectangular images, the area is the number of pixels that are 1 in the mask that
  was encoded into the record's segmentation, which is also the number of foreground
  pixels that the encoding stands for.
\<close>

theorem binary_mask_and_area:
  "(wf_ndarray sm \<longrightarrow>
      shape (fst (generate_binary_mask sm c)) = shape sm \<and>
      (\<forall>i < nrows sm. \<forall>j < ncols sm.
         elem (fst (generate_binary_mask sm c)) i j = (if elem sm i j = c then 1 else 0)) \<and>
      snd (generate_binary_mask sm c) = count_true (fst (generate_binary_mask sm c))) \<and>
   (generate_annotations args file_list = Inr (train, test) \<and>
    (\<forall>f \<in> set file_list. wf_ndarray (seg_array f)) \<longrightarrow>
      (\<forall>r \<in> set (train @ test).
         \<exists>bm. is_binary bm \<and> segmentation r = binary_mask_to_rle bm \<and>
              area r = count_true bm \<and> area r = foreground (counts (segmentation r))))"
proof (intro conjI impI ballI)
  show "shape (fst (generate_binary_mask sm c)) = shape sm" by (rule gbm_shape)
next
  assume wf: "wf_ndarray sm"
  show "\<forall>i < nrows sm. \<forall>j < ncols sm.
         elem (fst (generate_binary_mask sm c)) i j = (if elem sm i j = c then 1 else 0)"
  proof (intro allI impI)
    fix i j assume i: "i < nrows sm" and j: "j < ncols sm"
    then have "j < length (rows sm ! i)"
      using wf by (simp add: wf_ndarray_def list_all_length nrows_def)
    with i show "elem (fst (generate_binary_mask sm c)) i j = (if elem sm i j = c then 1 else 0)"
      by (rule gbm_elem)
  qed
next
  show "snd (generate_binary_mask sm c) = count_true (fst (generate_binary_mask sm c))"
    by (rule gbm_area)
next
  fix r
  assume h: "generate_annotations args file_list = Inr (train, test) \<and>
    (\<forall>f \<in> set file_list. wf_ndarray (seg_array f))" and r: "r \<in> set (train @ test)"
  from run_record_origin[OF conjunct1[OF h] r] obtain q c' where
    q: "q \<in> set (qualifying file_list)" and ok: "object_ok args q"
    and rq: "r = record_of args (fst q) c' (snd q)" by blast
  from q have "fst q \<in> set file_list" by (simp add: qualifying_set)
  with h have "wf_ndarray (seg_array (fst q))" by blast
  from record_of_area[OF this, of args "snd q" c'] ok rq
  show "\<exists>bm. is_binary bm \<and> segmentation r = binary_mask_to_rle bm \<and>
              area r = count_true bm \<and> area r = foreground (counts (segmentation r))"
    by auto
qed

lemma wf_example_files: "\<forall>f \<in> set example_files. wf_ndarray (seg_array f)"
  by (simp add: example_files_def wf_ndarray_def)

theorem binary_mask_and_area_witness:
  "wf_ndarray \<lparr>ncols = 2, rows = [[5, 3], [5, 5 :: int]]\<rparr> \<and>
   generate_binary_mask \<lparr>ncols = 2, rows = [[5, 3], [5, 5]]\<rparr> 5 =
     (\<lparr>ncols = 2, rows = [[1, 0], [1, 1]]\<rparr>, 3) \<and>
   count_true \<lparr>ncols = 2, rows = [[1, 0], [1, 1]]\<rparr> = 3 \<and>
   generate_annotations example_args example_files = Inr (example_train, example_test) \<and>
   area (hd example_train) = foreground (counts (segmentation (hd example_train))) \<and>
   area (hd example_test) = foreground (counts (segmentation (hd example_test)))"
proof -
  let ?sm = "\<lparr>ncols = 2, rows = [[5, 3], [5, 5 :: int]]\<rparr>"
  have wf: "wf_ndarray ?sm" by (simp add: wf_ndarray_def)
  have g: "generate_binary_mask ?sm 5 = (\<lparr>ncols = 2, rows = [[1, 0], [1, 1]]\<rparr>, 3)"
    by (simp add: generate_binary_mask_def eq_scalar_def astype_uint8_def count_nonzero_def Let_def)
  note t = binary_mask_and_area[of ?sm 5 example_args example_files example_train example_test]
  from t wf have "snd (generate_binary_mask ?sm 5) = count_true (fst (generate_binary_mask ?sm 5))"
    by blast
  then have c: "count_true \<lparr>ncols = 2, rows = [[1, 0], [1, 1]]\<rparr> = 3" by (simp add: g)
  from t example_run wf_example_files
  have a: "\<forall>r \<in> set (example_train @ example_test).
      area r = foreground (counts (segmentation r))" by blast
  have "hd example_train \<in> set (example_train @ example_test)"
       "hd example_test \<in> set (example_train @ example_test)"
    by (simp_all add: example_train_def example_test_def)
  with a have "area (hd example_train) = foreground (counts (segmentation (hd example_train)))"
    "area (hd example_test) = foreground (counts (segmentation (hd example_test)))" by blast+
  with wf g c example_run show ?thesis by simp
qed










lemma distinct_split:
  "distinct (map f xs) \<Longrightarrow> distinct (map f (filter P xs) @ map f (filter (\<lambda>x. \<not> P x) xs))"
  by (induction xs) auto

lemma run_ids:
  assumes "generate_annotations args file_list = Inr (train, test)"
  shows "map ann_id (map snd (generated args 1 (qualifying file_list))) =
           map (\<lambda>k. 1 + int k) [0..<length (qualifying file_list)]"
  using ids_generated[of args 1 "qualifying file_list"] by (simp add: comp_def)

lemma distinct_ids: "distinct (map (\<lambda>k. c + int k) [0..<n])"
  by (simp add: distinct_map inj_on_def)

text \<open>
  Claim C7. The ids of the records of the two lists are pairwise different, and they
  increase strictly along each list and along the generation order: the interleaving of
  the two lists whose record of position \<open>k\<close> is the one built from the object of
  position \<open>k\<close> among the objects that are not braces, taken file by file.
\<close>

theorem ids_increasing:
  "generate_annotations args file_list = Inr (train, test) \<Longrightarrow>
     distinct (map ann_id (train @ test)) \<and>
     sorted_wrt (<) (map ann_id train) \<and> sorted_wrt (<) (map ann_id test) \<and>
     (\<exists>gen \<in> shuffles train test.
        sorted_wrt (<) (map ann_id gen) \<and> distinct (map ann_id gen) \<and>
        length gen = length (qualifying file_list) \<and>
        (\<forall>k < length gen.
           gen ! k = record_of args (fst (qualifying file_list ! k)) (ann_id (gen ! k))
                       (snd (qualifying file_list ! k))))"
proof -
  assume run: "generate_annotations args file_list = Inr (train, test)"
  let ?q = "qualifying file_list"
  let ?G = "generated args 1 ?q"
  let ?gen = "map snd ?G"
  have tr: "train = map snd (filter fst ?G)" and te: "test = map snd (filter (\<lambda>p. \<not> fst p) ?G)"
    and sh: "?gen \<in> shuffles train test"
    using run_records[OF run] by simp_all
  have ids: "map (\<lambda>p. ann_id (snd p)) ?G = map (\<lambda>k. 1 + int k) [0..<length ?q]"
    by (rule ids_generated)
  have d: "distinct (map (\<lambda>p. ann_id (snd p)) ?G)" unfolding ids by (rule distinct_ids)
  have s: "sorted_wrt (<) (map (\<lambda>p. ann_id (snd p)) ?G)" unfolding ids by (rule sorted_ids)
  have 1: "distinct (map ann_id (train @ test))"
    using distinct_split[OF d, of fst] by (simp add: tr te comp_def)
  from s have s': "sorted_wrt (\<lambda>p p'. ann_id (snd p) < ann_id (snd p')) ?G"
    by (simp add: sorted_wrt_map)
  have 2: "sorted_wrt (<) (map ann_id train)"
    using sorted_wrt_filter[OF s', of fst] by (simp add: tr sorted_wrt_map)
  have 3: "sorted_wrt (<) (map ann_id test)"
    using sorted_wrt_filter[OF s', of "\<lambda>p. \<not> fst p"] by (simp add: te sorted_wrt_map)
  have 4: "sorted_wrt (<) (map ann_id ?gen)" using s by (simp add: comp_def)
  have 5: "distinct (map ann_id ?gen)" using d by (simp add: comp_def)
  have 6: "length ?gen = length ?q" by simp
  have 7: "\<forall>k < length ?gen. ?gen ! k = record_of args (fst (?q ! k)) (ann_id (?gen ! k)) (snd (?q ! k))"
    by (simp add: generated_nth)
  from sh 4 5 6 7 have "\<exists>gen \<in> shuffles train test.
        sorted_wrt (<) (map ann_id gen) \<and> distinct (map ann_id gen) \<and>
        length gen = length ?q \<and>
        (\<forall>k < length gen. gen ! k = record_of args (fst (?q ! k)) (ann_id (gen ! k)) (snd (?q ! k)))"
    by blast
  with 1 2 3 show ?thesis by blast
qed

theorem ids_increasing_witness:
  "generate_annotations example_args example_files = Inr (example_train, example_test) \<and>
   map ann_id (example_train @ example_test) = [1, 2] \<and>
   distinct (map ann_id (example_train @ example_test)) \<and>
   (\<exists>gen \<in> shuffles example_train example_test. sorted_wrt (<) (map ann_id gen))"
proof -
  from ids_increasing[OF example_run]
  have "distinct (map ann_id (example_train @ example_test))"
    and "\<exists>gen \<in> shuffles example_train example_test. sorted_wrt (<) (map ann_id gen)"
    by blast+
  moreover have "map ann_id (example_train @ example_test) = [1, 2]"
    by (simp add: example_train_def example_test_def)
  ultimately show ?thesis using example_run by blast
qed

lemma run_length:
  assumes "generate_annotations args file_list = Inr (train, test)"
  shows "length train + length test = length (qualifying file_list)"
  using length_shuffles[OF run_records(4)[OF assms]] by simp

text \<open>
  Claim C8. The two lists hold one record for each object that is not named \<open>brace\<close>
  and none for the others: every record carries the category id of an object of the
  input whose name is not \<open>brace\<close>, and when the category lookup gives different ids
  to different names, no record carries the id of \<open>brace\<close>.
\<close>

theorem brace_excluded:
  "generate_annotations args file_list = Inr (train, test) \<Longrightarrow>
     length train + length test =
       length (filter (\<lambda>obj. obj_name obj \<noteq> ''brace'') (concat (map objects file_list))) \<and>
     (\<forall>r \<in> set (train @ test). \<exists>f \<in> set file_list. \<exists>obj \<in> set (objects f).
        obj_name obj \<noteq> ''brace'' \<and>
        category_lookup args (obj_name obj) = Some (category_id r)) \<and>
     (\<forall>b. category_lookup args ''brace'' = Some b \<and>
          inj_on (category_lookup args) (dom (category_lookup args)) \<longrightarrow>
          (\<forall>r \<in> set (train @ test). category_id r \<noteq> b))"
proof -
  assume run: "generate_annotations args file_list = Inr (train, test)"
  have 1: "length train + length test =
       length (filter (\<lambda>obj. obj_name obj \<noteq> ''brace'') (concat (map objects file_list)))"
    using run_length[OF run] by (simp add: length_qualifying)
  have 2: "\<forall>r \<in> set (train @ test). \<exists>f \<in> set file_list. \<exists>obj \<in> set (objects f).
        obj_name obj \<noteq> ''brace'' \<and>
        category_lookup args (obj_name obj) = Some (category_id r)"
  proof
    fix r assume r: "r \<in> set (train @ test)"
    from run_record_origin[OF run r] obtain q c where
      q: "q \<in> set (qualifying file_list)" and ok: "object_ok args q"
      and rq: "r = record_of args (fst q) c (snd q)" by blast
    from q have m: "fst q \<in> set file_list" "snd q \<in> set (objects (fst q))" "obj_name (snd q) \<noteq> ''brace''"
      by (simp_all add: qualifying_set)
    from ok obtain v where "category_lookup args (obj_name (snd q)) = Some v"
      by (auto simp: object_ok_def)
    then have "category_lookup args (obj_name (snd q)) = Some (category_id r)"
      using rq by simp
    with m show "\<exists>f \<in> set file_list. \<exists>obj \<in> set (objects f).
        obj_name obj \<noteq> ''brace'' \<and>
        category_lookup args (obj_name obj) = Some (category_id r)" by blast
  qed
  have 3: "\<forall>b. category_lookup args ''brace'' = Some b \<and>
          inj_on (category_lookup args) (dom (category_lookup args)) \<longrightarrow>
          (\<forall>r \<in> set (train @ test). category_id r \<noteq> b)"
  proof (intro allI impI ballI)
    fix b r
    assume h: "category_lookup args ''brace'' = Some b \<and>
          inj_on (category_lookup args) (dom (category_lookup args))"
      and r: "r \<in> set (train @ test)"
    from 2 r have "\<exists>obj :: xml_object. obj_name obj \<noteq> ''brace'' \<and>
        category_lookup args (obj_name obj) = Some (category_id r)" by blast
    then obtain obj :: xml_object where n: "obj_name obj \<noteq> ''brace''"
      and c: "category_lookup args (obj_name obj) = Some (category_id r)" by blast
    show "category_id r \<noteq> b"
    proof
      assume "category_id r = b"
      with c h have e: "category_lookup args (obj_name obj) = category_lookup args ''brace''" by simp
      have d1: "obj_name obj \<in> dom (category_lookup args)" using c by blast
      have d2: "''brace'' \<in> dom (category_lookup args)" using h by blast
      from h have "inj_on (category_lookup args) (dom (category_lookup args))" by blast
      from inj_onD[OF this e d1 d2] have "obj_name obj = ''brace''" .
      with n show False by simp
    qed
  qed
  from 1 2 3 show ?thesis by blast
qed

lemma example_inj: "inj_on (category_lookup example_args) (dom (category_lookup example_args))"
  by (auto simp: example_args_def inj_on_def split: if_splits)

theorem brace_excluded_witness:
  "generate_annotations example_args example_files = Inr (example_train, example_test) \<and>
   category_lookup example_args ''brace'' = Some 9 \<and>
   inj_on (category_lookup example_args) (dom (category_lookup example_args)) \<and>
   length example_train + length example_test = 2 \<and>
   length (concat (map objects example_files)) = 3 \<and>
   category_id (hd example_train) \<noteq> 9 \<and> category_id (hd example_test) \<noteq> 9"
proof -
  have b: "category_lookup example_args ''brace'' = Some 9" by (simp add: example_args_def)
  note t = brace_excluded[OF example_run]
  from t b example_inj have "\<forall>r \<in> set (example_train @ example_test). category_id r \<noteq> 9"
    by blast
  moreover have "hd example_train \<in> set (example_train @ example_test)"
       "hd example_test \<in> set (example_train @ example_test)"
    by (simp_all add: example_train_def example_test_def)
  ultimately have "category_id (hd example_train) \<noteq> 9" "category_id (hd example_test) \<noteq> 9"
    by blast+
  moreover from t have "length example_train + length example_test =
       length (filter (\<lambda>obj. obj_name obj \<noteq> ''brace'') (concat (map objects example_files)))"
    by blast
  then have "length example_train + length example_test = 2"
    by (simp add: example_files_def)
  moreover have "length (concat (map objects example_files)) = 3"
    by (simp add: example_files_def)
  ultimately show ?thesis using example_run b example_inj by blast
qed

text \<open>
  Claim C10. With \<open>N\<close> the number of records of the two lists together, which is the
  number of objects not named \<open>brace\<close>, the ids are \<open>1, 2, ..., N\<close> in creation
  order: some interleaving of the two lists carries exactly these ids in this order, and
  the set of the ids is \<open>{1..N}\<close>.
\<close>

theorem ids_consecutive:
  "generate_annotations args file_list = Inr (train, test) \<Longrightarrow>
     length train + length test =
       length (filter (\<lambda>obj. obj_name obj \<noteq> ''brace'') (concat (map objects file_list))) \<and>
     (\<exists>gen \<in> shuffles train test.
        map ann_id gen = map int [1..<Suc (length train + length test)]) \<and>
     set (map ann_id (train @ test)) = {1..int (length train + length test)}"
proof -
  assume run: "generate_annotations args file_list = Inr (train, test)"
  let ?q = "qualifying file_list"
  let ?gen = "map snd (generated args 1 ?q)"
  have n: "length train + length test = length ?q" by (rule run_length[OF run])
  have sh: "?gen \<in> shuffles train test" by (rule run_records(4)[OF run])
  have ids: "map ann_id ?gen = map int [1..<Suc (length train + length test)]"
    using run_ids[OF run] by (simp only: n ids_from_one)
  have "set (map ann_id (train @ test)) = ann_id ` (set train \<union> set test)"
    by (simp add: image_Un)
  also have "\<dots> = ann_id ` set ?gen" using set_shuffles[OF sh] by simp
  also have "\<dots> = set (map ann_id ?gen)" by (simp only: set_map)
  also have "\<dots> = int ` {1..<Suc (length train + length test)}"
    unfolding ids by (simp only: set_map set_upt)
  also have "\<dots> = {1..int (length train + length test)}"
    by (simp add: atLeastLessThanSuc_atLeastAtMost image_int_atLeastAtMost)
  finally have s: "set (map ann_id (train @ test)) = {1..int (length train + length test)}" .
  have 1: "length train + length test =
       length (filter (\<lambda>obj. obj_name obj \<noteq> ''brace'') (concat (map objects file_list)))"
    using n by (simp add: length_qualifying)
  from sh ids have "\<exists>gen \<in> shuffles train test.
        map ann_id gen = map int [1..<Suc (length train + length test)]" by blast
  with 1 s show ?thesis by blast
qed

theorem ids_consecutive_witness:
  "generate_annotations example_args example_files = Inr (example_train, example_test) \<and>
   length example_train + length example_test = 2 \<and>
   map ann_id example_train = [1] \<and> map ann_id example_test = [2] \<and>
   set (map ann_id (example_train @ example_test)) = {1..2}"
proof -
  have l: "length example_train + length example_test = 2"
    by (simp add: example_train_def example_test_def)
  from ids_consecutive[OF example_run]
  have "set (map ann_id (example_train @ example_test)) =
      {1..int (length example_train + length example_test)}" by blast
  then have "set (map ann_id (example_train @ example_test)) = {1..2}" by (simp only: l) simp
  moreover have "map ann_id example_train = [1]" "map ann_id example_test = [2]"
    by (simp_all add: example_train_def example_test_def)
  ultimately show ?thesis using example_run l by blast
qed

end
